theory Spec2Isabelle
  imports Main "HOL-Library.Word" "HOL-Library.Signed_Division" "HOL-Library.Monad_Syntax"
begin

unbundle bit_operations_syntax

section \<open>Go values used by storage/tree/node.go\<close>

text \<open>
  A Go byte is an \<open>8 word\<close>, an int64 or uint64 a \<open>64 word\<close> (read with \<open>sint\<close> or
  \<open>unat\<close>). Go's \<open>int\<close> is 64 bits wide on the platforms the package runs on; it is
  modelled as \<open>int\<close>, with the wrap-around of a subtraction or addition written out
  (\<open>wrap64\<close>) in the constructors, whose arguments no caller contract bounds. In the
  methods of a \<open>NodeID\<close> the quantities are bounded by eight times the length of a
  slice, where 64-bit arithmetic does not wrap.

  A slice is modelled by the list of its elements. Its capacity is taken to be its
  length, as for every slice that \<open>make\<close> or a literal builds, so \<open>s[:k]\<close> panics
  for \<open>k > len(s)\<close>. A panic is the value \<open>None\<close>. Go's \<open>/\<close> and \<open>%\<close> truncate
  towards zero: they are \<open>sdiv\<close> and \<open>smod\<close>.
\<close>

type_synonym byte = "8 word"


text \<open>\<open>uint(x)\<close> for an int \<open>x\<close>, used as a shift count.\<close>

definition uint_of :: "int \<Rightarrow> nat" where
  "uint_of x = nat (x mod 2 ^ 64)"

text \<open>
  \<open>x << count\<close> with an unsigned count: Go shifts every bit out once the count
  reaches the width of x.
\<close>

definition shl :: "'a::len word \<Rightarrow> nat \<Rightarrow> 'a word" where
  "shl x count = (if count < LENGTH('a) then push_bit count x else 0)"

text \<open>\<open>make([]byte, n)\<close>: panics for a negative length.\<close>

definition make_bytes :: "int \<Rightarrow> byte list option" where
  "make_bytes n = (if n < 0 then None else Some (replicate (nat n) 0))"

text \<open>\<open>copy(dst, src)\<close> overwrites the first \<open>min(len(dst), len(src))\<close> elements of dst.\<close>

definition copy_bytes :: "byte list \<Rightarrow> byte list \<Rightarrow> byte list" where
  "copy_bytes dst src = take (length dst) src @ drop (length src) dst"

text \<open>\<open>s[:k]\<close>, \<open>s[k:]\<close>, \<open>s[i:j]\<close> and \<open>s[i]\<close>, with their bounds checks.\<close>

definition slice_to :: "'a list \<Rightarrow> int \<Rightarrow> 'a list option" where
  "slice_to s k = (if 0 \<le> k \<and> k \<le> int (length s) then Some (take (nat k) s) else None)"

definition slice_from :: "'a list \<Rightarrow> int \<Rightarrow> 'a list option" where
  "slice_from s k = (if 0 \<le> k \<and> k \<le> int (length s) then Some (drop (nat k) s) else None)"

definition slice_range :: "'a list \<Rightarrow> int \<Rightarrow> int \<Rightarrow> 'a list option" where
  "slice_range s i j =
     (if 0 \<le> i \<and> i \<le> j \<and> j \<le> int (length s)
      then Some (take (nat j - nat i) (drop (nat i) s)) else None)"

definition index :: "'a list \<Rightarrow> int \<Rightarrow> 'a option" where
  "index s i = (if 0 \<le> i \<and> i < int (length s) then Some (s ! nat i) else None)"

text \<open>\<open>copy(dst[off:], src)\<close>: the write lands in dst itself, from offset off.\<close>

definition copy_at :: "byte list \<Rightarrow> int \<Rightarrow> byte list \<Rightarrow> byte list option" where
  "copy_at dst off src =
     (case slice_from dst off of
        None \<Rightarrow> None
      | Some rest \<Rightarrow> Some (take (nat off) dst @ copy_bytes rest src))"

section \<open>NodeID\<close>

record NodeID =
  Path :: "byte list"
  PrefixLenBits :: int

definition PathLenBits :: "NodeID \<Rightarrow> int" where
  "PathLenBits n = int (length (Path n)) * 8"

definition bytesForBits :: "int \<Rightarrow> int" where
  "bytesForBits numBits = drop_bit 3 (numBits + 7)"


subsection \<open>NewNodeIDForTreeCoords\<close>

datatype error = OutOfRange

text \<open>\<open>bits.Len64\<close>: the number of bits needed to write x, 0 for 0.\<close>

function Len64 :: "64 word \<Rightarrow> nat" where
  "Len64 x = (if x = 0 then 0 else Suc (Len64 (drop_bit 1 x)))"
  by pat_completeness auto
termination
proof (relation "measure unat")
  show "wf (measure (unat :: 64 word \<Rightarrow> nat))" by simp
next
  fix x :: "64 word"
  assume "x \<noteq> 0"
  then show "(drop_bit 1 x, x) \<in> measure unat"
    by (simp add: drop_bit_eq_div unat_div_distrib unat_gt_0)
qed

declare Len64.simps [simp del]

text \<open>
  The loop \<open>for i := len(r.Path) - 1; uidx > 0 && i >= 0; i--\<close>, writing the low byte
  of uidx at i and shifting uidx right by 8.
\<close>

function coords_loop :: "int \<Rightarrow> 64 word \<Rightarrow> byte list \<Rightarrow> byte list" where
  "coords_loop i uidx path =
     (if uidx > 0 \<and> i \<ge> 0
      then coords_loop (i - 1) (drop_bit 8 uidx) (path[nat i := ucast (uidx AND 0xff)])
      else path)"
  by pat_completeness auto
termination
  by (relation "measure (\<lambda>(i, uidx, path). nat (i + 1))") auto

declare coords_loop.simps [simp del]

text \<open>
  depth and index are int64, maxPathBits is an int; all three are 64-bit words read
  as signed. The result is \<open>None\<close> for a panic (make with a negative length),
  \<open>Some (Inl e)\<close> for a returned error and \<open>Some (Inr r)\<close> for a returned NodeID.
\<close>

definition NewNodeIDForTreeCoords ::
    "64 word \<Rightarrow> 64 word \<Rightarrow> 64 word \<Rightarrow> (error + NodeID) option" where
  "NewNodeIDForTreeCoords depth index' maxPathBits =
     (let bl = Len64 index' in
      if sint index' < 0 \<or> sint depth < 0 \<or>
         int bl > sint (maxPathBits - depth) \<or>
         sint maxPathBits smod 8 \<noteq> 0
      then Some (Inl OutOfRange)
      else
        let uidx = shl index' (unat depth) in
        case make_bytes (sint maxPathBits sdiv 8) of
          None \<Rightarrow> None
        | Some path \<Rightarrow>
            Some (Inr \<lparr>Path = coords_loop (int (length path) - 1) uidx path,
                       PrefixLenBits = sint (maxPathBits - depth)\<rparr>))"

subsection \<open>The other constructors\<close>






text \<open>
  The inner loop of NewNodeIDFromBigInt over the \<open>_S = 8\<close> bytes of one word d;
  the flag says that \<open>break loop\<close> was taken.
\<close>

fun word_bytes_loop :: "nat \<Rightarrow> 64 word \<Rightarrow> int \<Rightarrow> byte list \<Rightarrow> bool \<times> int \<times> byte list" where
  "word_bytes_loop 0 d i path = (False, i, path)"
| "word_bytes_loop (Suc k) d i path =
     (let i = i - 1 in
      if i < 0 then (True, i, path)
      else word_bytes_loop k (drop_bit 8 d) i (path[nat i := ucast d]))"

fun words_loop :: "64 word list \<Rightarrow> int \<Rightarrow> byte list \<Rightarrow> byte list" where
  "words_loop [] i path = path"
| "words_loop (d # ds) i path =
     (case word_bytes_loop 8 d i path of
        (True, i, path) \<Rightarrow> path
      | (False, i, path) \<Rightarrow> words_loop ds i path)"


subsection \<open>Masking, neighbours and siblings\<close>

definition leftmask :: "byte list" where
  "leftmask = [0xFF, 0x80, 0xC0, 0xE0, 0xF0, 0xF8, 0xFC, 0xFE]"

definition MaskLeft :: "NodeID \<Rightarrow> int \<Rightarrow> NodeID option" where
  "MaskLeft n depth = do {
     r \<leftarrow> make_bytes (int (length (Path n)));
     r \<leftarrow> (if depth > 0 then do {
             let depthBytes = bytesForBits depth;
             src \<leftarrow> slice_to (Path n) depthBytes;
             let r = copy_bytes r src;
             old \<leftarrow> index r (depthBytes - 1);
             m \<leftarrow> index leftmask (depth smod 8);
             Some (r[nat (depthBytes - 1) := old AND m])
           } else Some r);
     let b = (if depth < PrefixLenBits n then depth else PrefixLenBits n);
     Some \<lparr>Path = r, PrefixLenBits = b\<rparr>
   }"

text \<open>
  In \<open>node.Path[bIndex] ^= 1 << uint(height%8)\<close> the constant 1 is a byte, and the
  count is converted to unsigned.
\<close>

definition Neighbor :: "NodeID \<Rightarrow> int \<Rightarrow> NodeID option" where
  "Neighbor n depth = do {
     node \<leftarrow> MaskLeft n depth;
     let height = PathLenBits node - PrefixLenBits node;
     let bIndex = (PathLenBits node - height - 1) sdiv 8;
     old \<leftarrow> index (Path node) bIndex;
     Some (node\<lparr>Path := (Path node)[nat bIndex := old XOR shl 1 (uint_of (height smod 8))]\<rparr>)
   }"

text \<open>
  \<open>for height := range sibs\<close>: the heights in turn, each storing a neighbour in
  the slice made before the loop; a panic of Neighbor ends the call.
\<close>

fun Siblings_loop :: "NodeID \<Rightarrow> nat list \<Rightarrow> NodeID list \<Rightarrow> NodeID list option" where
  "Siblings_loop n [] sibs = Some sibs"
| "Siblings_loop n (height # hs) sibs =
     (let depth = PrefixLenBits n - int height in
      case Neighbor n depth of
        None \<Rightarrow> None
      | Some s \<Rightarrow> Siblings_loop n hs (sibs[height := s]))"

definition Siblings :: "NodeID \<Rightarrow> NodeID list option" where
  "Siblings n =
     (if PrefixLenBits n < 0 then None
      else let sibs = replicate (nat (PrefixLenBits n)) \<lparr>Path = [], PrefixLenBits = 0\<rparr>
           in Siblings_loop n [0 ..< length sibs] sibs)"

subsection \<open>Prefix and suffix\<close>

text \<open>
  Modelled from the spec: the type Suffix, its constructor NewSuffix and the value
  EmptySuffix are declared in a file of the package that is not part of the examined
  source. The spec describes a Suffix as a bit count with a byte buffer, and the code
  here reads its fields \<open>bits\<close> (a byte) and \<open>path\<close>. The empty suffix stands for the
  root of a subtree: it has no bits.
\<close>

record Suffix =
  bits :: byte
  path :: "byte list"

definition NewSuffix :: "byte \<Rightarrow> byte list \<Rightarrow> Suffix" where
  "NewSuffix b p = \<lparr>bits = b, path = p\<rparr>"

definition EmptySuffix :: Suffix where
  "EmptySuffix = NewSuffix 0 []"

definition NewNodeIDFromPrefixSuffix :: "byte list \<Rightarrow> Suffix \<Rightarrow> int \<Rightarrow> NodeID option" where
  "NewNodeIDFromPrefixSuffix prefix suffix maxPathBits = do {
     buf \<leftarrow> make_bytes (maxPathBits sdiv 8);
     let buf = copy_bytes buf prefix;
     buf \<leftarrow> copy_at buf (int (length prefix)) (path suffix);
     Some \<lparr>Path = buf, PrefixLenBits = int (length prefix) * 8 + uint (bits suffix)\<rparr>
   }"

text \<open>
  The mask of Suffix is computed on bytes:
  \<open>((0x01 << uint(maskLowBits)) - 1) << uint(8-maskLowBits)\<close>.
\<close>

definition Suffix :: "NodeID \<Rightarrow> int \<Rightarrow> int \<Rightarrow> Suffix option" where
  "Suffix n prefixBytes suffixBits =
     (if PrefixLenBits n = 0 then Some EmptySuffix
      else
        let b = PrefixLenBits n - prefixBytes * 8 in
        if b > suffixBits then None
        else if b \<le> 0 then None
        else do {
          let suffixBytes = bytesForBits b;
          let maskIndex = (b - 1) sdiv 8;
          let maskLowBits = (b - 1) smod 8 + 1;
          sfxPath \<leftarrow> make_bytes suffixBytes;
          src \<leftarrow> slice_range (Path n) prefixBytes (prefixBytes + suffixBytes);
          let sfxPath = copy_bytes sfxPath src;
          old \<leftarrow> index sfxPath maskIndex;
          let mask = shl (shl (0x01 :: byte) (uint_of maskLowBits) - 1) (uint_of (8 - maskLowBits));
          Some (NewSuffix (word_of_int b) (sfxPath[nat maskIndex := old AND mask]))
        })"

definition Prefix :: "NodeID \<Rightarrow> int \<Rightarrow> byte list option" where
  "Prefix n prefixBytes =
     (if PrefixLenBits n = 0 then Some []
      else do {
        a \<leftarrow> make_bytes prefixBytes;
        src \<leftarrow> slice_to (Path n) prefixBytes;
        Some (copy_bytes a src)
      })"

definition Split :: "NodeID \<Rightarrow> int \<Rightarrow> int \<Rightarrow> (byte list \<times> Suffix) option" where
  "Split n prefixBytes suffixBits =
     (if PrefixLenBits n = 0 then Some ([], EmptySuffix)
      else do {
        p \<leftarrow> Prefix n prefixBytes;
        s \<leftarrow> Suffix n prefixBytes suffixBits;
        Some (p, s)
      })"

subsection \<open>Equivalence and keys\<close>

definition Equivalent :: "NodeID \<Rightarrow> NodeID \<Rightarrow> bool option" where
  "Equivalent n other =
     (if PrefixLenBits n \<noteq> PrefixLenBits other then Some False
      else do {
        let depthBytes = PrefixLenBits n sdiv 8;
        a \<leftarrow> slice_to (Path n) depthBytes;
        b \<leftarrow> slice_to (Path other) depthBytes;
        if a \<noteq> b then Some False
        else if PrefixLenBits n smod 8 = 0 then Some True
        else do {
          mask \<leftarrow> index leftmask (PrefixLenBits n smod 8);
          x \<leftarrow> index (Path n) depthBytes;
          y \<leftarrow> index (Path other) depthBytes;
          Some (x AND mask = y AND mask)
        }
      })"

definition hexChars :: string where
  "hexChars = ''0123456789abcdef''"

text \<open>\<open>hex.Encode\<close>: two characters of the hex table for each byte.\<close>

definition hex_Encode :: "byte list \<Rightarrow> string" where
  "hex_Encode src = concat (map (\<lambda>v. [hexChars ! unat (drop_bit 4 v), hexChars ! unat (v AND 0x0f)]) src)"

text \<open>\<open>strconv.Itoa\<close>: the decimal digits, after a minus sign for a negative number.\<close>

function digits :: "nat \<Rightarrow> string" where
  "digits n = (if n < 10 then [char_of (48 + n)] else digits (n div 10) @ [char_of (48 + n mod 10)])"
  by pat_completeness auto
termination
  by (relation "measure id") auto

declare digits.simps [simp del]

definition Itoa :: "int \<Rightarrow> string" where
  "Itoa i = (if i < 0 then CHR ''-'' # digits (nat (- i)) else digits (nat i))"

definition AsKey :: "NodeID \<Rightarrow> string option" where
  "AsKey n = do {
     let fullBytes = PrefixLenBits n sdiv 8;
     let bitsLeft = PrefixLenBits n smod 8;
     let b = Itoa (PrefixLenBits n) @ '':'';
     b \<leftarrow> (if fullBytes > 0 then do {
             src \<leftarrow> slice_to (Path n) fullBytes;
             Some (b @ hex_Encode src)
           } else Some b);
     b \<leftarrow> (if bitsLeft > 0 then do {
             x \<leftarrow> index (Path n) fullBytes;
             m \<leftarrow> index leftmask bitsLeft;
             let bits = x AND m;
             c1 \<leftarrow> index hexChars (uint (drop_bit 4 bits));
             c2 \<leftarrow> index hexChars (uint (bits AND 0xf));
             Some (b @ [c1, c2])
           } else Some b);
     Some b
   }"

section \<open>Bits of a path\<close>

text \<open>
  Bit i of a path, counted from the most significant bit of the first byte: the order
  in which PrefixLenBits counts the significant bits.
\<close>

definition path_bit :: "byte list \<Rightarrow> nat \<Rightarrow> bool" where
  "path_bit p i = bit (p ! (i div 8)) (7 - i mod 8)"

text \<open>
  The padding of an identifier is zero: every bit of the path from PrefixLenBits on is
  clear.
\<close>

definition padding_zero :: "NodeID \<Rightarrow> bool" where
  "padding_zero n =
     (\<forall>i \<in> {nat (PrefixLenBits n) ..< 8 * length (Path n)}. \<not> path_bit (Path n) i)"

section \<open>Evaluation lemmas\<close>

lemma replicate_numeral [simp]:
  "replicate (numeral k) x = x # replicate (pred_numeral k) x"
  by (simp add: numeral_eq_Suc)

lemma Len64_0 [simp]: "Len64 0 = 0"
  by (simp add: Len64.simps)

lemma Len64_numeral [simp]:
  "Len64 (numeral k) =
     (if (numeral k :: 64 word) = 0 then 0 else Suc (Len64 (drop_bit 1 (numeral k))))"
  by (rule Len64.simps)

lemma Len64_1 [simp]: "Len64 1 = 1"
  by (simp add: Len64.simps [of 1])

lemma coords_loop_0 [simp]: "coords_loop i 0 buf = buf"
  by (simp add: coords_loop.simps)

lemma coords_loop_neg [simp]: "i < 0 \<Longrightarrow> coords_loop i uidx buf = buf"
  by (simp add: coords_loop.simps)

lemma coords_loop_numeral [simp]:
  "coords_loop i (numeral k) buf =
     (if (numeral k :: 64 word) > 0 \<and> i \<ge> 0
      then coords_loop (i - 1) (drop_bit 8 (numeral k)) (buf[nat i := ucast (numeral k AND 0xff :: 64 word)])
      else buf)"
  by (rule coords_loop.simps)

section \<open>Properties of the operations\<close>

subsection \<open>Arithmetic and paths\<close>

lemma sdiv8 [simp]: "0 \<le> a \<Longrightarrow> a sdiv 8 = a div (8::int)"
  by (simp add: signed_divide_int_def sgn_if)

lemma smod8 [simp]: "0 \<le> a \<Longrightarrow> a smod 8 = a mod (8::int)"
  by (simp add: signed_modulo_int_def sgn_if)

lemma bytesForBits_eq: "bytesForBits d = (d + 7) div 8"
  by (simp add: bytesForBits_def drop_bit_eq_div)

lemma path_eqI:
  assumes len: "length a = length b"
    and bits: "\<And>i. i < 8 * length a \<Longrightarrow> path_bit a i = path_bit b i"
  shows "a = b"
proof (rule nth_equalityI)
  show "length a = length b" by (rule len)
next
  fix q assume q: "q < length a"
  show "a ! q = b ! q"
  proof (rule bit_word_eqI)
    fix j assume j: "j < LENGTH(8)"
    then have j8: "j < 8" by simp
    define k where "k = 7 - j"
    have k: "k < 8" "7 - k = j" using j8 by (simp_all add: k_def)
    have "8 * q + k < 8 * length a" using q k by simp
    from bits [OF this] have "path_bit a (8 * q + k) = path_bit b (8 * q + k)" .
    moreover have "(8 * q + k) div 8 = q" "(8 * q + k) mod 8 = k" using k by simp_all
    ultimately show "bit (a ! q) j = bit (b ! q) j"
      using k by (simp add: path_bit_def)
  qed
qed

subsection \<open>MaskLeft, bit by bit\<close>

lemma leftmask_bit:
  assumes "m < 8" "j < 8"
  shows "bit (leftmask ! m) j = (m = 0 \<or> 8 - m \<le> j)"
proof -
  have m: "m \<in> {0,1,2,3,4,5,6,7}" using assms(1) by auto
  have j: "j \<in> {0,1,2,3,4,5,6,7}" using assms(2) by auto
  show ?thesis using m j
    by (auto simp: leftmask_def bit_numeral_simps)
qed
lemma copy_bytes_zero:
  "k \<le> n \<Longrightarrow> length src = k \<Longrightarrow> copy_bytes (replicate n 0) src = src @ replicate (n - k) 0"
  by (simp add: copy_bytes_def)

lemma MaskLeft_nonpos:
  "d \<le> 0 \<Longrightarrow> MaskLeft n d =
     Some \<lparr>Path = replicate (length (Path n)) 0, PrefixLenBits = min d (PrefixLenBits n)\<rparr>"
  by (simp add: MaskLeft_def make_bytes_def min_def)

lemma MaskLeft_pos:
  assumes d: "0 < d" "d \<le> 8 * int (length (Path n))"
  defines "k \<equiv> nat (bytesForBits d)"
  shows "MaskLeft n d =
     Some \<lparr>Path = (take k (Path n) @ replicate (length (Path n) - k) 0)
                     [k - 1 := Path n ! (k - 1) AND leftmask ! nat (d mod 8)],
           PrefixLenBits = min d (PrefixLenBits n)\<rparr>"
proof -
  have k: "0 < k" "k \<le> length (Path n)"
    using d by (auto simp: k_def bytesForBits_eq)
  have db: "bytesForBits d = int k"
    using d by (simp add: k_def bytesForBits_eq)
  have m: "0 \<le> d mod 8" "d mod 8 < 8" by simp_all
  have cp: "copy_bytes (replicate (length (Path n)) 0) (take k (Path n)) =
      take k (Path n) @ replicate (length (Path n) - k) 0"
    using k by (intro copy_bytes_zero) simp_all
  have nth: "(take k (Path n) @ replicate (length (Path n) - k) 0) ! (k - 1) = Path n ! (k - 1)"
    using k by (simp add: nth_append)
  have b: "(if d < PrefixLenBits n then d else PrefixLenBits n) = min d (PrefixLenBits n)"
    by (simp add: min_def)
  have lm: "index leftmask (d smod 8) = Some (leftmask ! nat (d mod 8))"
    using d m by (simp add: index_def leftmask_def)
  have sl: "slice_to (Path n) (int k) = Some (take k (Path n))"
    using k by (simp add: slice_to_def)
  have ix: "index (take k (Path n) @ replicate (length (Path n) - k) 0) (int k - 1) =
      Some (Path n ! (k - 1))"
    using k nth by (simp add: index_def nat_diff_distrib)
  show ?thesis
    unfolding MaskLeft_def b db Let_def
    using d(1) k by (simp add: lm sl cp ix make_bytes_def nat_diff_distrib del: smod8)
qed

lemma ceil8:
  fixes d :: int
  assumes "0 < d"
  obtains c e :: nat where "d = int (8 * c + e)" "e < 8" "nat (d mod 8) = e"
    "nat ((d + 7) div 8) = (if e = 0 then c else c + 1)"
proof -
  define c where "c = nat (d div 8)"
  define e where "e = nat (d mod 8)"
  have 1: "d = int (8 * c + e)" using assms by (simp add: c_def e_def)
  have 2: "e < 8" by (simp add: e_def)
  have "(int (8 * c + e) + 7) div 8 = int c + (int e + 7) div 8" by simp
  moreover have "(int e + 7) div 8 = (if e = 0 then 0 else 1)" using 2 by auto
  ultimately have 3: "nat ((d + 7) div 8) = (if e = 0 then c else c + 1)"
    unfolding 1 by (auto simp: nat_add_distrib)
  show ?thesis using that [OF 1 2 _ 3] by (simp add: e_def)
qed

lemma last_byte_arith:
  fixes d :: int and q j i k :: nat
  assumes "q = k - 1" "q < len" "j < 8" "i = 8 * q + j" "0 < k" "k \<le> len"
    "int k = (d + 7) div 8" "0 < d"
  shows "(nat (d mod 8) = 0 \<or> 8 - nat (d mod 8) \<le> 7 - j) = (int i < d)"
proof -
  obtain c e :: nat where ce: "d = int (8 * c + e)" "e < 8" "nat (d mod 8) = e"
    "nat ((d + 7) div 8) = (if e = 0 then c else c + 1)"
    using ceil8 [OF \<open>0 < d\<close>] by blast
  have k: "k = (if e = 0 then c else c + 1)" using ce(4) assms(7) by simp
  show ?thesis
    unfolding ce(3) using assms(1,3,4,5) ce(1,2) k by (auto split: if_splits)
qed

lemma MaskLeft_bits:
  assumes d: "0 \<le> d" "d \<le> 8 * int (length (Path n))"
  obtains r where "MaskLeft n d = Some r"
    and "length (Path r) = length (Path n)"
    and "PrefixLenBits r = min d (PrefixLenBits n)"
    and "\<And>i. i < 8 * length (Path n) \<Longrightarrow>
            path_bit (Path r) i = (int i < d \<and> path_bit (Path n) i)"
proof (cases "d = 0")
  case True
  have "path_bit (replicate (length (Path n)) 0) i = False" if "i < 8 * length (Path n)" for i
    using that by (simp add: path_bit_def)
  then show ?thesis
    using True that [of "\<lparr>Path = replicate (length (Path n)) 0, PrefixLenBits = min d (PrefixLenBits n)\<rparr>"]
    by (simp add: MaskLeft_nonpos)
next
  case False
  with d have pos: "0 < d" by simp
  define k where "k = nat (bytesForBits d)"
  have k: "0 < k" "k \<le> length (Path n)" "int k = (d + 7) div 8"
    using d pos by (auto simp: k_def bytesForBits_eq)
  define r where "r = (take k (Path n) @ replicate (length (Path n) - k) 0)
                     [k - 1 := Path n ! (k - 1) AND leftmask ! nat (d mod 8)]"
  have ml: "MaskLeft n d = Some \<lparr>Path = r, PrefixLenBits = min d (PrefixLenBits n)\<rparr>"
    using MaskLeft_pos [OF pos d(2)] by (simp add: r_def k_def)
  have len: "length r = length (Path n)" using k by (simp add: r_def)
  have bits: "path_bit r i = (int i < d \<and> path_bit (Path n) i)" if i: "i < 8 * length (Path n)" for i
  proof -
    define q where "q = i div 8"
    define j where "j = i mod 8"
    have q: "q < length (Path n)" "j < 8" "i = 8 * q + j" using i by (auto simp: q_def j_def)
    consider "q < k - 1" | "q = k - 1" | "k \<le> q" by linarith
    then show ?thesis
    proof cases
      case 1
      then have "q < k" by simp
      with 1 have "r ! q = Path n ! q" using k by (simp add: r_def nth_append)
      moreover have "int i < d" using 1 q k by linarith
      ultimately show ?thesis by (simp add: path_bit_def q_def)
    next
      case 2
      have m8: "nat (d mod 8) < 8" by simp
      have "r ! q = Path n ! q AND leftmask ! nat (d mod 8)"
        using 2 k by (simp add: r_def nth_append)
      moreover have "bit (leftmask ! nat (d mod 8)) (7 - j) = (int i < d)"
      proof -
        have "bit (leftmask ! nat (d mod 8)) (7 - j) = (nat (d mod 8) = 0 \<or> 8 - nat (d mod 8) \<le> 7 - j)"
          using q by (intro leftmask_bit) simp_all
        also have "\<dots> = (int i < d)" using 2 q k pos by (rule last_byte_arith)
        finally show ?thesis .
      qed
      ultimately show ?thesis by (auto simp: path_bit_def q_def j_def bit_and_iff)
    next
      case 3
      then have "r ! q = 0" using k q by (simp add: r_def nth_append)
      moreover have "\<not> int i < d" using 3 q k by linarith
      ultimately show ?thesis by (simp add: path_bit_def q_def)
    qed
  qed
  show ?thesis using that [OF ml] len bits by simp
qed

subsection \<open>Equivalent, bit by bit\<close>

lemma byte_eq_bits:
  fixes x y :: byte
  shows "(x = y) = (\<forall>j<8. bit x (7 - j) = bit y (7 - j))"
proof
  assume r: "\<forall>j<8. bit x (7 - j) = bit y (7 - j)"
  show "x = y"
  proof (rule bit_word_eqI)
    fix j assume "j < LENGTH(8)"
    then have "7 - j < 8" "7 - (7 - j) = j" by simp_all
    with r show "bit x j = bit y j" by metis
  qed
qed simp

lemma path_bit_split: "j < 8 \<Longrightarrow> path_bit p (8 * q + j) = bit (p ! q) (7 - j)"
  by (simp add: path_bit_def)

lemma take_eq_bits:
  assumes "k \<le> length a" "k \<le> length b"
  shows "(take k a = take k b) = (\<forall>i<8 * k. path_bit a i = path_bit b i)"
proof
  assume eq: "take k a = take k b"
  show "\<forall>i<8 * k. path_bit a i = path_bit b i"
  proof (intro allI impI)
    fix i assume "i < 8 * k"
    then have "i div 8 < k" by simp
    then have "a ! (i div 8) = take k a ! (i div 8)" "b ! (i div 8) = take k b ! (i div 8)"
      by simp_all
    with eq show "path_bit a i = path_bit b i" by (simp add: path_bit_def)
  qed
next
  assume bits: "\<forall>i<8 * k. path_bit a i = path_bit b i"
  show "take k a = take k b"
  proof (rule nth_equalityI)
    show "length (take k a) = length (take k b)" using assms by simp
  next
    fix q assume "q < length (take k a)"
    then have q: "q < k" by simp
    have "a ! q = b ! q"
      unfolding byte_eq_bits
    proof (intro allI impI)
      fix j :: nat assume j: "j < 8"
      then have "8 * q + j < 8 * k" using q by simp
      with bits have "path_bit a (8 * q + j) = path_bit b (8 * q + j)" by blast
      then show "bit (a ! q) (7 - j) = bit (b ! q) (7 - j)" using j by (simp add: path_bit_split)
    qed
    then show "take k a ! q = take k b ! q" using q by simp
  qed
qed

lemma masked_eq_bits:
  fixes x y :: byte
  assumes e: "0 < e" "e < 8"
  shows "(x AND leftmask ! e = y AND leftmask ! e) = (\<forall>j<e. bit x (7 - j) = bit y (7 - j))"
proof -
  have "(x AND leftmask ! e = y AND leftmask ! e) =
      (\<forall>j<8. bit (x AND leftmask ! e) (7 - j) = bit (y AND leftmask ! e) (7 - j))"
    by (rule byte_eq_bits)
  also have "\<dots> = (\<forall>j<8. (8 - e \<le> 7 - j) \<longrightarrow> bit x (7 - j) = bit y (7 - j))"
    using e by (auto simp: bit_and_iff leftmask_bit)
  also have "\<dots> = (\<forall>j<e. bit x (7 - j) = bit y (7 - j))"
  proof -
    have "(j < 8 \<and> 8 - e \<le> 7 - j) = (j < e)" for j using e by auto
    then show ?thesis by metis
  qed
  finally show ?thesis .
qed

lemma Equivalent_bits:
  assumes n: "0 \<le> PrefixLenBits n" "PrefixLenBits n \<le> PathLenBits n"
    and m: "0 \<le> PrefixLenBits m" "PrefixLenBits m \<le> PathLenBits m"
  shows "Equivalent n m =
     Some (PrefixLenBits n = PrefixLenBits m \<and>
           (\<forall>i. int i < PrefixLenBits n \<longrightarrow> path_bit (Path n) i = path_bit (Path m) i))"
proof (cases "PrefixLenBits n = PrefixLenBits m")
  case False
  then show ?thesis by (simp add: Equivalent_def)
next
  case True
  define k where "k = nat (PrefixLenBits n div 8)"
  define e where "e = nat (PrefixLenBits n mod 8)"
  have dnn: "0 \<le> PrefixLenBits n div 8" using n by (simp add: pos_imp_zdiv_nonneg_iff)
  have p: "PrefixLenBits n = int (8 * k + e)" "e < 8"
    using n dnn by (simp_all add: k_def e_def)
  have len: "8 * k + e \<le> 8 * length (Path n)" "8 * k + e \<le> 8 * length (Path m)"
    using n m True p by (simp_all add: PathLenBits_def)
  then have k: "k \<le> length (Path n)" "k \<le> length (Path m)" by simp_all
  have dv: "PrefixLenBits n sdiv 8 = int k" "PrefixLenBits n smod 8 = int e"
    using n dnn by (simp_all add: k_def e_def)
  have sl: "slice_to (Path n) (int k) = Some (take k (Path n))"
    "slice_to (Path m) (int k) = Some (take k (Path m))"
    using k by (simp_all add: slice_to_def)
  have full: "(take k (Path n) = take k (Path m)) =
      (\<forall>i<8 * k. path_bit (Path n) i = path_bit (Path m) i)"
    using k by (rule take_eq_bits)
  have rhs: "(\<forall>i. int i < PrefixLenBits n \<longrightarrow> path_bit (Path n) i = path_bit (Path m) i) =
      (\<forall>i<8 * k + e. path_bit (Path n) i = path_bit (Path m) i)"
    unfolding p by (simp only: of_nat_less_iff)
  have eqv: "Equivalent n m =
      (if take k (Path n) \<noteq> take k (Path m) then Some False
       else if e = 0 then Some True
       else do {
          mask \<leftarrow> index leftmask (int e);
          x \<leftarrow> index (Path n) (int k);
          y \<leftarrow> index (Path m) (int k);
          Some (x AND mask = y AND mask)
        })"
    unfolding Equivalent_def dv Let_def using \<open>PrefixLenBits n = PrefixLenBits m\<close>
    by (simp add: sl)
  show ?thesis
  proof (cases "e = 0")
    case True
    then show ?thesis
      unfolding eqv rhs using \<open>PrefixLenBits n = PrefixLenBits m\<close>
      by (simp add: full)
  next
    case False
    then have e: "0 < e" "e < 8" using p by simp_all
    have kl: "k < length (Path n)" "k < length (Path m)" using len e by simp_all
    have ix: "index leftmask (int e) = Some (leftmask ! e)"
      "index (Path n) (int k) = Some (Path n ! k)" "index (Path m) (int k) = Some (Path m ! k)"
      using e kl by (simp_all add: index_def leftmask_def)
    have part: "(Path n ! k AND leftmask ! e = Path m ! k AND leftmask ! e) =
        (\<forall>j<e. path_bit (Path n) (8 * k + j) = path_bit (Path m) (8 * k + j))"
      using e by (simp add: masked_eq_bits path_bit_split)
    have all: "(\<forall>i<8 * k + e. path_bit (Path n) i = path_bit (Path m) i) =
        ((\<forall>i<8 * k. path_bit (Path n) i = path_bit (Path m) i) \<and>
         (\<forall>j<e. path_bit (Path n) (8 * k + j) = path_bit (Path m) (8 * k + j)))"
      (is "?L = (?A \<and> ?B)")
    proof
      assume ?L
      then show "?A \<and> ?B" by simp
    next
      assume ab: "?A \<and> ?B"
      show ?L
      proof (intro allI impI)
        fix i assume i: "i < 8 * k + e"
        show "path_bit (Path n) i = path_bit (Path m) i"
        proof (cases "i < 8 * k")
          case True with ab show ?thesis by blast
        next
          case False
          then have "i = 8 * k + (i - 8 * k)" "i - 8 * k < e" using i by simp_all
          with ab show ?thesis by metis
        qed
      qed
    qed
    show ?thesis
      unfolding eqv rhs all using \<open>PrefixLenBits n = PrefixLenBits m\<close> False
      by (simp add: ix full part)
  qed
qed

subsection \<open>MaskLeft applied twice, and at the identifier's own length\<close>

lemma MaskLeft_idem:
  assumes d: "0 \<le> d" "d \<le> PathLenBits n" and r: "MaskLeft n d = Some r"
  shows "MaskLeft r d = Some r"
proof -
  have dn: "d \<le> 8 * int (length (Path n))" using d by (simp add: PathLenBits_def)
  obtain r' where r': "MaskLeft n d = Some r'" "length (Path r') = length (Path n)"
      "PrefixLenBits r' = min d (PrefixLenBits n)"
      "\<And>i. i < 8 * length (Path n) \<Longrightarrow> path_bit (Path r') i = (int i < d \<and> path_bit (Path n) i)"
    using MaskLeft_bits [OF d(1) dn] by metis
  have rr: "r' = r" using r r' by simp
  have dr: "d \<le> 8 * int (length (Path r))" using dn r' rr by simp
  obtain s where s: "MaskLeft r d = Some s" "length (Path s) = length (Path r)"
      "PrefixLenBits s = min d (PrefixLenBits r)"
      "\<And>i. i < 8 * length (Path r) \<Longrightarrow> path_bit (Path s) i = (int i < d \<and> path_bit (Path r) i)"
    using MaskLeft_bits [OF d(1) dr] by metis
  have "Path s = Path r"
  proof (rule path_eqI)
    show "length (Path s) = length (Path r)" by (rule s(2))
  next
    fix i assume "i < 8 * length (Path s)"
    then have i: "i < 8 * length (Path r)" "i < 8 * length (Path n)" using s(2) r'(2) rr by simp_all
    show "path_bit (Path s) i = path_bit (Path r) i"
      using s(4) [OF i(1)] r'(4) [OF i(2)] rr by auto
  qed
  moreover have "PrefixLenBits s = PrefixLenBits r" using s(3) r'(3) rr by simp
  ultimately have "s = r" by simp
  with s(1) show ?thesis by simp
qed

lemma padding_zero_iff:
  "0 \<le> PrefixLenBits n \<Longrightarrow> padding_zero n =
     (\<forall>i. PrefixLenBits n \<le> int i \<and> i < 8 * length (Path n) \<longrightarrow> \<not> path_bit (Path n) i)"
  unfolding padding_zero_def by (auto simp: nat_le_iff)

lemma MaskLeft_own_length:
  assumes p: "0 \<le> PrefixLenBits n" "PrefixLenBits n \<le> PathLenBits n"
  obtains r where "MaskLeft n (PrefixLenBits n) = Some r"
    and "PrefixLenBits r = PrefixLenBits n" and "length (Path r) = length (Path n)"
    and "\<And>i. i < 8 * length (Path n) \<Longrightarrow>
            path_bit (Path r) i = (int i < PrefixLenBits n \<and> path_bit (Path n) i)"
    and "Equivalent r n = Some True"
    and "padding_zero r"
    and "(r = n) = padding_zero n"
proof -
  have pn: "PrefixLenBits n \<le> 8 * int (length (Path n))" using p by (simp add: PathLenBits_def)
  obtain r where r: "MaskLeft n (PrefixLenBits n) = Some r" "length (Path r) = length (Path n)"
      "PrefixLenBits r = min (PrefixLenBits n) (PrefixLenBits n)"
      "\<And>i. i < 8 * length (Path n) \<Longrightarrow>
         path_bit (Path r) i = (int i < PrefixLenBits n \<and> path_bit (Path n) i)"
    using MaskLeft_bits [OF p(1) pn] by metis
  have pr: "PrefixLenBits r = PrefixLenBits n" using r(3) by simp
  have sig: "path_bit (Path r) i = path_bit (Path n) i" if "int i < PrefixLenBits n" for i
  proof -
    have "i < 8 * length (Path n)" using that pn by linarith
    from r(4) [OF this] that show ?thesis by simp
  qed
  have eq: "Equivalent r n = Some True"
    using p pr r(2) sig by (subst Equivalent_bits) (simp_all add: PathLenBits_def)
  have pz: "padding_zero r"
    using p(1) r(4) by (auto simp: padding_zero_iff pr r(2))
  have "(r = n) = padding_zero n"
  proof
    assume "r = n" with pz show "padding_zero n" by simp
  next
    assume z: "padding_zero n"
    have "Path r = Path n"
    proof (rule path_eqI)
      show "length (Path r) = length (Path n)" by (rule r(2))
    next
      fix i assume "i < 8 * length (Path r)"
      then have i: "i < 8 * length (Path n)" using r(2) by simp
      show "path_bit (Path r) i = path_bit (Path n) i"
        using r(4) [OF i] z i p(1) by (cases "int i < PrefixLenBits n") (auto simp: padding_zero_iff)
    qed
    with pr show "r = n" by simp
  qed
  with that [OF r(1) pr r(2) r(4) eq pz] show ?thesis by blast
qed

subsection \<open>The bit that Neighbor flips\<close>

lemma uint_of_small: "k < 2 ^ 64 \<Longrightarrow> uint_of (int k) = k"
proof -
  assume "k < 2 ^ 64"
  then have "int k < 2 ^ 64" by (metis of_nat_less_iff of_nat_numeral of_nat_power)
  then have "int k mod 2 ^ 64 = int k" by simp
  then show ?thesis by (simp only: uint_of_def nat_int)
qed

lemma Neighbor_closed:
  assumes d: "1 \<le> d" "d \<le> 8 * int (length (Path r))"
    and r: "MaskLeft n d = Some r" "PrefixLenBits r = d"
  defines "c \<equiv> nat ((d - 1) div 8)" and "e \<equiv> nat ((d - 1) mod 8)"
  shows "Neighbor n d = Some (r\<lparr>Path := (Path r)[c := Path r ! c XOR push_bit (7 - e) 1]\<rparr>)"
    and "c < length (Path r)" and "e < 8" and "d = int (8 * c + e) + 1"
proof -
  have dnn: "0 \<le> (d - 1) div 8" using d by (simp add: pos_imp_zdiv_nonneg_iff)
  show e: "e < 8" by (simp add: e_def)
  show dce: "d = int (8 * c + e) + 1" using d dnn by (simp add: c_def e_def)
  show c: "c < length (Path r)" using d dce by linarith
  have height: "PathLenBits r - PrefixLenBits r = 8 * int (length (Path r)) - d"
    by (simp add: PathLenBits_def r)
  have h0: "0 \<le> 8 * int (length (Path r)) - d" using d by simp
  have bi: "(PathLenBits r - (8 * int (length (Path r)) - d) - 1) sdiv 8 = int c"
    using d dnn by (simp add: PathLenBits_def c_def)
  have bi2: "(PrefixLenBits r - 1) sdiv 8 = int c"
    using d dnn by (simp add: r c_def)
  have "8 * int (length (Path r)) - d = 8 * (int (length (Path r)) - int c - 1) + (7 - int e)"
    using dce by simp
  moreover have "(8 * X + Y) mod 8 = Y mod 8" for X Y :: int by simp
  ultimately have "(8 * int (length (Path r)) - d) mod 8 = (7 - int e) mod 8"
    by (simp only:)
  also have "\<dots> = 7 - int e" using e by simp
  finally have hm: "(8 * int (length (Path r)) - d) smod 8 = int (7 - e)"
    using h0 e by simp
  have "uint_of (int (7 - e)) = 7 - e" by (rule uint_of_small) simp
  then have sh: "shl (1::byte) (uint_of (int (7 - e))) = push_bit (7 - e) 1"
    by (simp add: shl_def)
  have ix: "index (Path r) (int c) = Some (Path r ! c)" using c by (simp add: index_def)
  show "Neighbor n d = Some (r\<lparr>Path := (Path r)[c := Path r ! c XOR push_bit (7 - e) 1]\<rparr>)"
    unfolding Neighbor_def r(1) by (simp add: Let_def height bi bi2 hm sh ix del: smod8 sdiv8)
qed

lemma flip_bit_byte:
  fixes x :: byte
  assumes "h < 8" "j < 8"
  shows "bit (x XOR push_bit h 1) j = (bit x j \<noteq> (j = h))"
  using assms by (auto simp: bit_simps)

lemma Neighbor_bits:
  assumes d: "1 \<le> d" "d \<le> PrefixLenBits n" "d \<le> PathLenBits n"
  obtains nb where "Neighbor n d = Some nb"
    and "PrefixLenBits nb = d" and "length (Path nb) = length (Path n)"
    and "\<And>i. i < 8 * length (Path n) \<Longrightarrow>
            path_bit (Path nb) i = ((int i < d \<and> path_bit (Path n) i) \<noteq> (int i = d - 1))"
proof -
  have d0: "0 \<le> d" and dn: "d \<le> 8 * int (length (Path n))"
    using d by (simp_all add: PathLenBits_def)
  obtain r where r: "MaskLeft n d = Some r" "length (Path r) = length (Path n)"
      "PrefixLenBits r = min d (PrefixLenBits n)"
      "\<And>i. i < 8 * length (Path n) \<Longrightarrow> path_bit (Path r) i = (int i < d \<and> path_bit (Path n) i)"
    using MaskLeft_bits [OF d0 dn] by blast
  have pr: "PrefixLenBits r = d" using r(3) d(2) by simp
  have dr: "d \<le> 8 * int (length (Path r))" using dn r(2) by simp
  define c where "c = nat ((d - 1) div 8)"
  define e where "e = nat ((d - 1) mod 8)"
  define nb where "nb = r\<lparr>Path := (Path r)[c := Path r ! c XOR push_bit (7 - e) 1]\<rparr>"
  have nc: "Neighbor n d = Some nb" "c < length (Path r)" "e < 8" "d = int (8 * c + e) + 1"
    using Neighbor_closed [OF d(1) dr r(1) pr] by (simp_all add: nb_def c_def e_def)
  have bits: "path_bit (Path nb) i = ((int i < d \<and> path_bit (Path n) i) \<noteq> (int i = d - 1))"
    if i: "i < 8 * length (Path n)" for i
  proof -
    define q where "q = i div 8"
    define j where "j = i mod 8"
    have qj: "i = 8 * q + j" "j < 8" "q < length (Path r)"
      using i r(2) by (auto simp: q_def j_def)
    have "(int i = d - 1) = (i = 8 * c + e)" using nc(4) by linarith
    also have "\<dots> = (q = c \<and> j = e)"
    proof
      assume "i = 8 * c + e"
      then show "q = c \<and> j = e" using nc(3) by (simp add: q_def j_def)
    next
      assume "q = c \<and> j = e"
      then show "i = 8 * c + e" using qj(1) by simp
    qed
    finally have last: "(int i = d - 1) = (q = c \<and> j = e)" .
    show ?thesis
    proof (cases "q = c")
      case True
      have "path_bit (Path nb) i = bit (Path r ! c XOR push_bit (7 - e) 1) (7 - j)"
        using True nc(2) qj by (simp add: nb_def path_bit_split)
      also have "\<dots> = (bit (Path r ! c) (7 - j) \<noteq> (7 - j = 7 - e))"
        using nc(3) qj(2) by (intro flip_bit_byte) simp_all
      also have "bit (Path r ! c) (7 - j) = path_bit (Path r) i"
        using True qj by (simp add: path_bit_split)
      also have "(7 - j = 7 - e) = (j = e)" using nc(3) qj(2) by auto
      finally show ?thesis using r(4) [OF i] last True by simp
    next
      case False
      then have "path_bit (Path nb) i = path_bit (Path r) i"
        using qj by (simp add: nb_def path_bit_split)
      then show ?thesis using r(4) [OF i] last False by simp
    qed
  qed
  show ?thesis
    using that [OF nc(1) _ _ bits] pr r(2) by (simp add: nb_def)
qed

subsection \<open>The loop of Siblings\<close>

lemma Siblings_loop_result:
  assumes "\<forall>h\<in>set hs. h < length sibs \<and> (\<exists>s. Neighbor n (PrefixLenBits n - int h) = Some s)"
  shows "\<exists>out. Siblings_loop n hs sibs = Some out \<and> length out = length sibs \<and>
           (\<forall>h<length sibs. out ! h =
               (if h \<in> set hs then the (Neighbor n (PrefixLenBits n - int h)) else sibs ! h))"
  using assms
proof (induction hs arbitrary: sibs)
  case Nil
  then show ?case by simp
next
  case (Cons h hs)
  from Cons.prems obtain s where s: "Neighbor n (PrefixLenBits n - int h) = Some s"
    and h: "h < length sibs" by auto
  have "\<forall>k\<in>set hs. k < length (sibs[h := s]) \<and>
      (\<exists>s. Neighbor n (PrefixLenBits n - int k) = Some s)"
    using Cons.prems by simp
  from Cons.IH [OF this] obtain out where out:
    "Siblings_loop n hs (sibs[h := s]) = Some out" "length out = length sibs"
    "\<forall>k<length sibs. out ! k =
        (if k \<in> set hs then the (Neighbor n (PrefixLenBits n - int k)) else sibs[h := s] ! k)"
    by auto
  have "Siblings_loop n (h # hs) sibs = Some out" using s out(1) by simp
  moreover have "\<forall>k<length sibs. out ! k =
      (if k \<in> set (h # hs) then the (Neighbor n (PrefixLenBits n - int k)) else sibs ! k)"
    using out(3) s h by (auto simp: nth_list_update)
  ultimately show ?case using out(2) by blast
qed

lemma Siblings_result:
  assumes p: "0 \<le> PrefixLenBits n" "PrefixLenBits n \<le> PathLenBits n"
  obtains sibs where "Siblings n = Some sibs" and "length sibs = nat (PrefixLenBits n)"
    and "\<And>h. h < nat (PrefixLenBits n) \<Longrightarrow> Neighbor n (PrefixLenBits n - int h) = Some (sibs ! h)"
proof -
  define N where "N = nat (PrefixLenBits n)"
  define z where "z = replicate N \<lparr>Path = [], PrefixLenBits = 0\<rparr>"
  have nb: "\<exists>s. Neighbor n (PrefixLenBits n - int h) = Some s" if "h < N" for h
  proof -
    have "1 \<le> PrefixLenBits n - int h" "PrefixLenBits n - int h \<le> PrefixLenBits n"
      "PrefixLenBits n - int h \<le> PathLenBits n"
      using that p by (simp_all add: N_def)
    from Neighbor_bits [OF this] show ?thesis by blast
  qed
  then have "\<forall>h\<in>set [0..<length z]. h < length z \<and>
      (\<exists>s. Neighbor n (PrefixLenBits n - int h) = Some s)"
    by (simp add: z_def)
  from Siblings_loop_result [OF this] obtain out where out:
    "Siblings_loop n [0..<length z] z = Some out" "length out = length z"
    "\<forall>h<length z. out ! h =
        (if h \<in> set [0..<length z] then the (Neighbor n (PrefixLenBits n - int h)) else z ! h)"
    by blast
  have 1: "Siblings n = Some out"
    using p(1) out(1) by (simp add: Siblings_def Let_def z_def N_def)
  have 2: "length out = nat (PrefixLenBits n)" using out(2) by (simp add: z_def N_def)
  have 3: "Neighbor n (PrefixLenBits n - int h) = Some (out ! h)" if "h < nat (PrefixLenBits n)" for h
  proof -
    have "h < N" using that by (simp add: N_def)
    from nb [OF this] obtain s where "Neighbor n (PrefixLenBits n - int h) = Some s" by blast
    moreover have "out ! h = the (Neighbor n (PrefixLenBits n - int h))"
      using out(3) \<open>h < N\<close> by (simp add: z_def)
    ultimately show ?thesis by simp
  qed
  from that [OF 1 2 3] show ?thesis .
qed

subsection \<open>Split and its inverse\<close>

lemma suffix_mask_nat:
  assumes "1 \<le> k" "k \<le> 8"
  shows "shl (shl (0x01 :: byte) k - 1) (8 - k) = leftmask ! (k mod 8)"
proof -
  consider "k = 1" | "k = 2" | "k = 3" | "k = 4" | "k = 5" | "k = 6" | "k = 7" | "k = 8"
    using assms by linarith
  then show ?thesis
    by cases (simp_all add: shl_def leftmask_def)
qed

lemma suffix_mask_eq:
  assumes "1 \<le> k" "k \<le> 8"
  shows "shl (shl (0x01 :: byte) (uint_of (int k)) - 1) (uint_of (8 - int k)) = leftmask ! (k mod 8)"
proof -
  have u: "uint_of (int k) = k" using assms by (intro uint_of_small) simp
  have "uint_of (8 - int k) = uint_of (int (8 - k))" using assms by (simp add: of_nat_diff)
  also have "\<dots> = 8 - k" by (intro uint_of_small) simp
  finally have v: "uint_of (8 - int k) = 8 - k" .
  show ?thesis
    unfolding u v using assms by (rule suffix_mask_nat)
qed

lemma Join_closed:
  assumes "0 \<le> mb" "length p + length (path s) \<le> nat (mb div 8)"
  shows "NewNodeIDFromPrefixSuffix p s mb =
     Some \<lparr>Path = p @ path s @ replicate (nat (mb div 8) - length p - length (path s)) 0,
           PrefixLenBits = int (length p) * 8 + uint (bits s)\<rparr>"
proof -
  define L where "L = nat (mb div 8)"
  have mk: "make_bytes (mb sdiv 8) = Some (replicate L 0)"
    using assms(1) by (simp add: make_bytes_def L_def pos_imp_zdiv_nonneg_iff)
  have l: "length p \<le> L" "length (path s) \<le> L - length p" using assms(2) by (simp_all add: L_def)
  have c1: "copy_bytes (replicate L 0) p = p @ replicate (L - length p) 0"
    using l by (intro copy_bytes_zero) simp_all
  have c2: "copy_bytes (replicate (L - length p) 0) (path s) =
      path s @ replicate (L - length p - length (path s)) 0"
    using l by (intro copy_bytes_zero) simp_all
  have c3: "copy_at (p @ replicate (L - length p) 0) (int (length p)) (path s) =
      Some (p @ path s @ replicate (L - length p - length (path s)) 0)"
    using l by (simp add: copy_at_def slice_from_def c2)
  show ?thesis
    unfolding NewNodeIDFromPrefixSuffix_def mk L_def [symmetric]
    by (simp add: c1 c3)
qed

lemma Split_closed:
  assumes pb: "0 \<le> pb" and b: "0 < PrefixLenBits n - pb * 8" "PrefixLenBits n - pb * 8 \<le> sb"
    and p: "PrefixLenBits n \<le> PathLenBits n"
  defines "k \<equiv> nat (bytesForBits (PrefixLenBits n))"
  shows "Split n pb sb =
     Some (take (nat pb) (Path n),
           NewSuffix (word_of_int (PrefixLenBits n - pb * 8))
             ((take (k - nat pb) (drop (nat pb) (Path n)))
                [k - nat pb - 1 := Path n ! (k - 1) AND leftmask ! nat (PrefixLenBits n mod 8)]))"
    and "nat pb < k" and "k \<le> length (Path n)"
proof -
  define P where "P = PrefixLenBits n"
  define bb where "bb = P - pb * 8"
  define a where "a = nat pb"
  have P0: "0 < P" using b pb by (simp add: P_def)
  have pbn: "pb = int a" using pb by (simp add: a_def)
  have Pn: "P \<le> 8 * int (length (Path n))" using p by (simp add: P_def PathLenBits_def)
  have kk: "int k = (P + 7) div 8" using P0 by (simp add: k_def P_def bytesForBits_eq)
  show ak: "nat pb < k" using b kk pbn by (simp add: P_def a_def [symmetric])
  show kl: "k \<le> length (Path n)" using kk Pn by linarith
  have ak': "a < k" using ak by (simp add: a_def)
  have sB: "bytesForBits bb = int (k - a)"
  proof -
    have "bytesForBits bb = (P + 7 - 8 * int a) div 8" by (simp add: bytesForBits_eq bb_def pbn)
    also have "\<dots> = (P + 7) div 8 - int a"
      using div_mult_self1 [of 8 "P + 7" "- int a"] by (simp add: algebra_simps)
    also have "\<dots> = int (k - a)" using kk ak' by simp
    finally show ?thesis .
  qed
  have bbpos: "0 < bb" "bb \<le> sb" using b by (simp_all add: bb_def P_def)
  have mi: "(bb - 1) sdiv 8 = int (k - a - 1)"
  proof -
    have "(bb - 1) sdiv 8 = (bb - 1) div 8" using bbpos by simp
    also have "\<dots> = (bb + 7) div 8 - 1"
      using div_add_self2 [of 8 "bb - 1"] by simp
    also have "\<dots> = int (k - a - 1)"
      using sB ak' by (simp add: bytesForBits_eq)
    finally show ?thesis .
  qed
  define ml where "ml = nat ((bb - 1) mod 8) + 1"
  have ml: "1 \<le> ml" "ml \<le> 8" "(bb - 1) smod 8 + 1 = int ml"
    using bbpos by (simp_all add: ml_def) 
  have mlmod: "ml mod 8 = nat (P mod 8)"
  proof -
    have "int (ml mod 8) = ((bb - 1) mod 8 + 1) mod 8"
      using bbpos by (simp add: ml_def zmod_int add.commute)
    also have "\<dots> = bb mod 8" by (simp add: mod_add_left_eq)
    also have "\<dots> = P mod 8"
      using mod_mult_self1 [of P "- int a" 8] by (simp add: bb_def pbn algebra_simps)
    finally show ?thesis by simp
  qed
  have mask: "shl (shl (0x01 :: byte) (uint_of (int ml)) - 1) (uint_of (8 - int ml)) =
      leftmask ! nat (P mod 8)"
    using suffix_mask_eq [OF ml(1,2)] by (simp only: mlmod)
  have sr: "slice_range (Path n) (int a) (int a + int (k - a)) =
      Some (take (k - a) (drop a (Path n)))"
    using ak' kl by (simp add: slice_range_def)
  have cp: "copy_bytes (replicate (k - a) 0) (take (k - a) (drop a (Path n))) =
      take (k - a) (drop a (Path n))"
    using ak' kl by (simp add: copy_bytes_def)
  have ix: "index (take (k - a) (drop a (Path n))) (int (k - a - 1)) = Some (Path n ! (k - 1))"
  proof -
    have "a + (k - a - 1) = k - 1" using ak' by simp
    then have "take (k - a) (drop a (Path n)) ! (k - a - 1) = Path n ! (k - 1)"
      using ak' kl by simp
    moreover have "nat (int (k - a - 1)) = k - a - 1" by (rule nat_int)
    ultimately show ?thesis using ak' kl by (simp only: index_def) simp
  qed
  have sfx: "Suffix n (int a) sb =
      Some (NewSuffix (word_of_int bb)
             ((take (k - a) (drop a (Path n)))
                [k - a - 1 := Path n ! (k - 1) AND leftmask ! nat (P mod 8)]))"
    unfolding Suffix_def P_def [symmetric] pbn [symmetric] bb_def [symmetric] Let_def sB mi ml(3)
    using P0 bbpos pbn
    by (simp add: make_bytes_def sr cp ix [simplified] mask del: smod8 sdiv8)
  have pre: "Prefix n (int a) = Some (take a (Path n))"
    using P0 ak' kl by (simp add: Prefix_def P_def make_bytes_def slice_to_def copy_bytes_def)
  show "Split n pb sb =
     Some (take (nat pb) (Path n),
           NewSuffix (word_of_int (PrefixLenBits n - pb * 8))
             ((take (k - nat pb) (drop (nat pb) (Path n)))
                [k - nat pb - 1 := Path n ! (k - 1) AND leftmask ! nat (PrefixLenBits n mod 8)]))"
    unfolding Split_def using P0 sfx pre pb
    by (simp add: P_def bb_def a_def)
qed

lemma uint_byte_of_int: "0 \<le> x \<Longrightarrow> x < 256 \<Longrightarrow> uint (word_of_int x :: byte) = x"
  by (simp add: uint_word_of_int)

lemma Split_Join_MaskLeft:
  assumes pb: "0 \<le> pb" and b: "0 < PrefixLenBits n - pb * 8" "PrefixLenBits n - pb * 8 \<le> sb"
    "PrefixLenBits n - pb * 8 < 256"
    and p: "PrefixLenBits n \<le> PathLenBits n"
  obtains pre s where "Split n pb sb = Some (pre, s)"
    and "NewNodeIDFromPrefixSuffix pre s (PathLenBits n) = MaskLeft n (PrefixLenBits n)"
proof -
  define k where "k = nat (bytesForBits (PrefixLenBits n))"
  define a where "a = nat pb"
  define X where "X = Path n ! (k - 1) AND leftmask ! nat (PrefixLenBits n mod 8)"
  define pre where "pre = take a (Path n)"
  define sp where "sp = (take (k - a) (drop a (Path n)))[k - a - 1 := X]"
  define s where "s = NewSuffix (word_of_int (PrefixLenBits n - pb * 8)) sp"
  have sc: "Split n pb sb = Some (pre, s)" "a < k" "k \<le> length (Path n)"
    using Split_closed [OF pb b(1,2) p]
    by (simp_all add: k_def a_def X_def pre_def sp_def s_def)
  have P0: "0 < PrefixLenBits n" using pb b(1) by simp
  have Pn: "PrefixLenBits n \<le> 8 * int (length (Path n))" using p by (simp add: PathLenBits_def)
  have lens: "length pre = a" "length sp = k - a" "path s = sp"
    "bits s = word_of_int (PrefixLenBits n - pb * 8)"
    using sc(2,3) by (simp_all add: pre_def sp_def s_def NewSuffix_def)
  have mb: "nat (PathLenBits n div 8) = length (Path n)" "0 \<le> PathLenBits n"
    by (simp_all add: PathLenBits_def)
  have "length pre + length (path s) \<le> nat (PathLenBits n div 8)"
    using sc(2,3) by (simp add: lens mb)
  from Join_closed [OF mb(2) this]
  have j: "NewNodeIDFromPrefixSuffix pre s (PathLenBits n) =
      Some \<lparr>Path = pre @ sp @ replicate (length (Path n) - a - (k - a)) 0,
            PrefixLenBits = int a * 8 + uint (word_of_int (PrefixLenBits n - pb * 8) :: byte)\<rparr>"
    by (simp add: lens mb)
  have u: "uint (word_of_int (PrefixLenBits n - pb * 8) :: byte) = PrefixLenBits n - pb * 8"
    using b by (intro uint_byte_of_int) simp_all
  have pl: "int a * 8 + (PrefixLenBits n - pb * 8) = PrefixLenBits n"
    using pb by (simp add: a_def)
  have tk: "take k (Path n) = take a (Path n) @ take (k - a) (drop a (Path n))"
    using take_add [of a "k - a" "Path n"] sc(2) by simp
  have path: "pre @ sp @ replicate (length (Path n) - a - (k - a)) 0 =
      (take k (Path n) @ replicate (length (Path n) - k) 0)[k - 1 := X]"
  proof -
    have "(take k (Path n) @ replicate (length (Path n) - k) 0)[k - 1 := X] =
        (take k (Path n))[k - 1 := X] @ replicate (length (Path n) - k) 0"
      using sc(2,3) by (simp add: list_update_append)
    also have "(take k (Path n))[k - 1 := X] = pre @ sp"
    proof -
      have la: "length (take a (Path n)) = a" using sc(2,3) by simp
      have ge: "\<not> k - 1 < length (take a (Path n))" using sc(2) la by simp
      have ix: "k - 1 - length (take a (Path n)) = k - a - 1" using la by simp
      have "(take a (Path n) @ take (k - a) (drop a (Path n)))[k - 1 := X] =
          take a (Path n) @ (take (k - a) (drop a (Path n)))[k - a - 1 := X]"
        using ge by (simp only: list_update_append ix if_False)
      then show ?thesis by (simp only: tk pre_def sp_def)
    qed
    finally show ?thesis using sc(2) by simp
  qed
  have ml: "MaskLeft n (PrefixLenBits n) =
      Some \<lparr>Path = (take k (Path n) @ replicate (length (Path n) - k) 0)[k - 1 := X],
            PrefixLenBits = PrefixLenBits n\<rparr>"
    using MaskLeft_pos [OF P0 Pn] by (simp add: k_def X_def)
  have "NewNodeIDFromPrefixSuffix pre s (PathLenBits n) = MaskLeft n (PrefixLenBits n)"
    unfolding j ml u pl path ..
  with sc(1) that show ?thesis by blast
qed

subsection \<open>Decimal and hex strings\<close>

lemma append_sep_eq:
  assumes "c \<notin> set a" "c \<notin> set b" "a @ c # x = b @ c # y"
  shows "a = b \<and> x = y"
proof -
  have "takeWhile (\<lambda>z. z \<noteq> c) (a @ c # x) = a" using assms(1) by (auto simp: takeWhile_tail)
  moreover have "takeWhile (\<lambda>z. z \<noteq> c) (b @ c # y) = b" using assms(2) by (auto simp: takeWhile_tail)
  ultimately have "a = b" using assms(3) by simp
  with assms(3) show ?thesis by simp
qed

lemma digit_val_char:
  fixes d :: nat
  shows "d < 10 \<Longrightarrow> of_char (char_of (48 + d) :: char) - 48 = d"
  by simp

lemma digits_decode: "foldl (\<lambda>a c. 10 * a + (of_char c - 48)) 0 (digits n) = n"
proof (induction n rule: digits.induct)
  case (1 n)
  show ?case
  proof (cases "n < 10")
    case True
    then show ?thesis by (simp add: digits.simps [of n] digit_val_char)
  next
    case False
    have "n mod 10 < 10" by simp
    then have "of_char (char_of (48 + n mod 10) :: char) - 48 = n mod 10" by (rule digit_val_char)
    with False 1 show ?thesis by (simp add: digits.simps [of n])
  qed
qed

lemma digits_inj: "digits n = digits m \<Longrightarrow> n = m"
  by (metis digits_decode)

lemma digit_char_range:
  fixes d :: nat
  shows "d < 10 \<Longrightarrow> (of_char (char_of (48 + d) :: char) :: nat) \<in> {48..57}"
  by simp

lemma digits_chars: "c \<in> set (digits n) \<Longrightarrow> (of_char c :: nat) \<in> {48..57}"
proof (induction n rule: digits.induct)
  case (1 n)
  show ?case
  proof (cases "n < 10")
    case True
    with 1(2) show ?thesis using digit_char_range [of n] by (simp add: digits.simps [of n])
  next
    case False
    have "n mod 10 < 10" by simp
    from digit_char_range [OF this] 1 False show ?thesis
      by (auto simp: digits.simps [of n])
  qed
qed

lemma colon_not_digit: "CHR '':'' \<notin> set (digits n)"
proof
  assume "CHR '':'' \<in> set (digits n)"
  from digits_chars [OF this] show False by simp
qed

lemma hexChars_nth_inj:
  assumes "i < 16" "j < 16" "hexChars ! i = hexChars ! j"
  shows "i = j"
proof -
  have "distinct hexChars" "length hexChars = 16" by (simp_all add: hexChars_def)
  with assms show ?thesis by (simp add: nth_eq_iff_index_eq)
qed

lemma nibbles_lt:
  fixes v :: byte
  shows "unat (drop_bit 4 v) < 16" "unat (v AND 0x0f) < 16"
proof -
  have "unat (drop_bit 4 v) = unat v div 16" by (simp add: drop_bit_eq_div unat_div_distrib)
  moreover have "unat v < 256" using unsigned_less [of v] by simp
  ultimately show "unat (drop_bit 4 v) < 16" by simp
  have "v AND 0x0f = take_bit 4 v" by (simp add: take_bit_eq_mask mask_eq_exp_minus_1)
  then have "unat (v AND 0x0f) = unat v mod 16" by (simp add: take_bit_eq_mod unat_mod_distrib)
  then show "unat (v AND 0x0f) < 16" by simp
qed

lemma byte_of_nibbles:
  fixes v w :: byte
  assumes "drop_bit 4 v = drop_bit 4 w" "v AND 0x0f = w AND 0x0f"
  shows "v = w"
proof -
  have m: "(x :: byte) AND 0x0f = take_bit 4 x" for x
    by (simp add: take_bit_eq_mask mask_eq_exp_minus_1)
  have "v = push_bit 4 (drop_bit 4 v) OR take_bit 4 v"
    by (rule bit_eqI) (auto simp: bit_simps)
  moreover have "w = push_bit 4 (drop_bit 4 w) OR take_bit 4 w"
    by (rule bit_eqI) (auto simp: bit_simps)
  ultimately show ?thesis using assms by (simp add: m)
qed

lemma hex_Encode_Cons:
  "hex_Encode (v # vs) = hexChars ! unat (drop_bit 4 v) # hexChars ! unat (v AND 0x0f) # hex_Encode vs"
  by (simp add: hex_Encode_def)

lemma hex_Encode_append: "hex_Encode (a @ b) = hex_Encode a @ hex_Encode b"
  by (simp add: hex_Encode_def)

lemma hex_Encode_length: "length (hex_Encode a) = 2 * length a"
  by (induction a) (simp_all add: hex_Encode_def)

lemma hex_Encode_inj: "hex_Encode a = hex_Encode b \<Longrightarrow> a = b"
proof (induction a arbitrary: b)
  case Nil
  then have "length (hex_Encode b) = 0" by (simp add: hex_Encode_def)
  then show ?case by (simp add: hex_Encode_length)
next
  case (Cons v vs)
  have "length (hex_Encode b) = 2 * length (v # vs)"
    using Cons.prems hex_Encode_length [of "v # vs"] by simp
  then have "2 * length b = 2 * Suc (length vs)" by (simp only: hex_Encode_length length_Cons)
  then have "length b = Suc (length vs)" by simp
  then obtain w ws where b: "b = w # ws" by (cases b) simp_all
  have "hex_Encode (v # vs) = hex_Encode (w # ws)" using Cons.prems unfolding b .
  then have e: "hexChars ! unat (drop_bit 4 v) = hexChars ! unat (drop_bit 4 w)"
    "hexChars ! unat (v AND 0x0f) = hexChars ! unat (w AND 0x0f)"
    "hex_Encode vs = hex_Encode ws"
    unfolding hex_Encode_Cons by simp_all
  have hi: "drop_bit 4 v = drop_bit 4 w"
    by (rule word_unat_eq_iff [THEN iffD2])
      (rule hexChars_nth_inj [OF nibbles_lt(1) nibbles_lt(1) e(1)])
  have lo: "v AND 0x0f = w AND 0x0f"
    by (rule word_unat_eq_iff [THEN iffD2])
      (rule hexChars_nth_inj [OF nibbles_lt(2) nibbles_lt(2) e(2)])
  have "v = w" using hi lo by (rule byte_of_nibbles)
  moreover have "vs = ws" using Cons.IH [OF e(3)] .
  ultimately show ?case by (simp add: b)
qed

subsection \<open>Keys\<close>

lemma all_less_add:
  fixes m e :: nat
  shows "(\<forall>i<m + e. Q i) = ((\<forall>i<m. Q i) \<and> (\<forall>j<e. Q (m + j)))"
proof
  assume "\<forall>i<m + e. Q i"
  then show "(\<forall>i<m. Q i) \<and> (\<forall>j<e. Q (m + j))" by simp
next
  assume ab: "(\<forall>i<m. Q i) \<and> (\<forall>j<e. Q (m + j))"
  show "\<forall>i<m + e. Q i"
  proof (intro allI impI)
    fix i assume i: "i < m + e"
    show "Q i"
    proof (cases "i < m")
      case True with ab show ?thesis by blast
    next
      case False
      then have "i = m + (i - m)" "i - m < e" using i by simp_all
      with ab show ?thesis by metis
    qed
  qed
qed

lemma sig_bytes_eq:
  assumes "k \<le> length a" "k \<le> length b" "e < 8"
  shows "(take k a @ (if 0 < e then [a ! k AND leftmask ! e] else []) =
          take k b @ (if 0 < e then [b ! k AND leftmask ! e] else [])) =
         (\<forall>i<8 * k + e. path_bit a i = path_bit b i)"
proof (cases "0 < e")
  case False
  then show ?thesis using take_eq_bits [OF assms(1,2)] by simp
next
  case True
  have "(take k a @ [a ! k AND leftmask ! e] = take k b @ [b ! k AND leftmask ! e]) =
      (take k a = take k b \<and> a ! k AND leftmask ! e = b ! k AND leftmask ! e)"
    using assms(1,2) by simp
  also have "\<dots> = ((\<forall>i<8 * k. path_bit a i = path_bit b i) \<and>
      (\<forall>j<e. path_bit a (8 * k + j) = path_bit b (8 * k + j)))"
    using True assms(3) take_eq_bits [OF assms(1,2)]
    by (simp add: masked_eq_bits path_bit_split)
  also have "\<dots> = (\<forall>i<8 * k + e. path_bit a i = path_bit b i)"
    by (rule all_less_add [symmetric])
  finally show ?thesis using True by simp
qed

lemma index_nibble:
  fixes y :: byte
  assumes "unat y < 16"
  shows "index hexChars (uint y) = Some (hexChars ! unat y)"
proof -
  have "uint y = int (unat y)" by simp
  moreover have "int (unat y) < 16" using assms by linarith
  moreover have "int (length hexChars) = 16" by (simp add: hexChars_def)
  ultimately show ?thesis by (simp add: index_def)
qed

lemma partial_hex:
  fixes x :: byte
  shows "(index hexChars (uint (drop_bit 4 x)) \<bind> (\<lambda>c1.
            index hexChars (uint (x AND 0xf)) \<bind> (\<lambda>c2. Some (b @ [c1, c2])))) =
         Some (b @ hex_Encode [x])"
  using index_nibble [OF nibbles_lt(1) [of x]] index_nibble [OF nibbles_lt(2) [of x]]
  by (simp add: hex_Encode_def)

lemma AsKey_closed:
  assumes p: "0 \<le> PrefixLenBits n" "PrefixLenBits n \<le> PathLenBits n"
  defines "k \<equiv> nat (PrefixLenBits n div 8)" and "e \<equiv> nat (PrefixLenBits n mod 8)"
  shows "AsKey n =
     Some (Itoa (PrefixLenBits n) @ '':'' @
           hex_Encode (take k (Path n) @ (if 0 < e then [Path n ! k AND leftmask ! e] else [])))"
    and "PrefixLenBits n = int (8 * k + e)" and "e < 8" and "k \<le> length (Path n)"
    and "0 < e \<Longrightarrow> k < length (Path n)"
proof -
  have dnn: "0 \<le> PrefixLenBits n div 8" using p by (simp add: pos_imp_zdiv_nonneg_iff)
  show pe: "PrefixLenBits n = int (8 * k + e)" using p dnn by (simp add: k_def e_def)
  show e8: "e < 8" by (simp add: e_def)
  have len: "8 * k + e \<le> 8 * length (Path n)" using p pe by (simp add: PathLenBits_def)
  then show kl: "k \<le> length (Path n)" by simp
  show kl': "k < length (Path n)" if "0 < e" using len that by simp
  have dv: "PrefixLenBits n sdiv 8 = int k" "PrefixLenBits n smod 8 = int e"
    using p dnn by (simp_all add: k_def e_def)
  have sl: "slice_to (Path n) (int k) = Some (take k (Path n))"
    using kl by (simp add: slice_to_def)
  have full: "(if 0 < int k then slice_to (Path n) (int k) \<bind>
        (\<lambda>src. Some ((Itoa (PrefixLenBits n) @ '':'') @ hex_Encode src))
      else Some (Itoa (PrefixLenBits n) @ '':'')) =
      Some (Itoa (PrefixLenBits n) @ '':'' @ hex_Encode (take k (Path n)))"
    by (simp add: sl hex_Encode_def)
  show "AsKey n =
     Some (Itoa (PrefixLenBits n) @ '':'' @
           hex_Encode (take k (Path n) @ (if 0 < e then [Path n ! k AND leftmask ! e] else [])))"
  proof (cases "0 < e")
    case False
    then show ?thesis
      unfolding AsKey_def dv Let_def full by simp
  next
    case True
    have ix: "index (Path n) (int k) = Some (Path n ! k)"
      "index leftmask (int e) = Some (leftmask ! e)"
      using kl' [OF True] e8 by (simp_all add: index_def leftmask_def)
    define x where "x = Path n ! k AND leftmask ! e"
    have "AsKey n = index hexChars (uint (drop_bit 4 x)) \<bind> (\<lambda>c1.
            index hexChars (uint (x AND 0xf)) \<bind> (\<lambda>c2.
              Some ((Itoa (PrefixLenBits n) @ '':'' @ hex_Encode (take k (Path n))) @ [c1, c2])))"
      unfolding AsKey_def dv Let_def full x_def using True
      by (simp add: ix del: bit.conj_disj_distrib)
    also have "\<dots> = Some ((Itoa (PrefixLenBits n) @ '':'' @ hex_Encode (take k (Path n))) @
        hex_Encode [x])"
      by (rule partial_hex)
    finally show ?thesis using True by (simp add: hex_Encode_append x_def)
  qed
qed

lemma hex_Encode_Nil [simp]: "hex_Encode [] = []"
  by (simp add: hex_Encode_def)

lemma digits_9: "digits 9 = ''9''"
  by (simp add: digits.simps) code_simp

lemma AsKey_eq_iff:
  assumes n: "0 \<le> PrefixLenBits n" "PrefixLenBits n \<le> PathLenBits n"
    and m: "0 \<le> PrefixLenBits m" "PrefixLenBits m \<le> PathLenBits m"
  shows "(AsKey n = AsKey m) =
     (PrefixLenBits n = PrefixLenBits m \<and>
      (\<forall>i. int i < PrefixLenBits n \<longrightarrow> path_bit (Path n) i = path_bit (Path m) i))"
proof -
  define k where "k = nat (PrefixLenBits n div 8)"
  define e where "e = nat (PrefixLenBits n mod 8)"
  define k' where "k' = nat (PrefixLenBits m div 8)"
  define e' where "e' = nat (PrefixLenBits m mod 8)"
  define L where "L = take k (Path n) @ (if 0 < e then [Path n ! k AND leftmask ! e] else [])"
  define L' where "L' = take k' (Path m) @ (if 0 < e' then [Path m ! k' AND leftmask ! e'] else [])"
  have kn: "AsKey n = Some (Itoa (PrefixLenBits n) @ '':'' @ hex_Encode L)"
    and pn: "PrefixLenBits n = int (8 * k + e)" "e < 8" "k \<le> length (Path n)"
    using AsKey_closed [OF n] by (simp_all add: k_def e_def L_def)
  have km: "AsKey m = Some (Itoa (PrefixLenBits m) @ '':'' @ hex_Encode L')"
    and pm: "PrefixLenBits m = int (8 * k' + e')" "e' < 8" "k' \<le> length (Path m)"
    using AsKey_closed [OF m] by (simp_all add: k'_def e'_def L'_def)
  have it: "Itoa (PrefixLenBits n) = digits (nat (PrefixLenBits n))"
    "Itoa (PrefixLenBits m) = digits (nat (PrefixLenBits m))"
    using n(1) m(1) by (simp_all add: Itoa_def)
  have rhs: "(\<forall>i. int i < PrefixLenBits n \<longrightarrow> path_bit (Path n) i = path_bit (Path m) i) =
      (\<forall>i<8 * k + e. path_bit (Path n) i = path_bit (Path m) i)"
    unfolding pn(1) by (simp only: of_nat_less_iff)
  show ?thesis
  proof
    assume eq: "AsKey n = AsKey m"
    then have "digits (nat (PrefixLenBits n)) @ CHR '':'' # hex_Encode L =
        digits (nat (PrefixLenBits m)) @ CHR '':'' # hex_Encode L'"
      unfolding kn km it by simp
    from append_sep_eq [OF colon_not_digit colon_not_digit this]
    have d: "digits (nat (PrefixLenBits n)) = digits (nat (PrefixLenBits m))"
      and h: "hex_Encode L = hex_Encode L'" by simp_all
    have "nat (PrefixLenBits n) = nat (PrefixLenBits m)" using d by (rule digits_inj)
    then have P: "PrefixLenBits n = PrefixLenBits m" using n(1) m(1) by simp
    then have ke: "k' = k" "e' = e" by (simp_all add: k_def e_def k'_def e'_def)
    have "L = L'" using h by (rule hex_Encode_inj)
    then have "\<forall>i<8 * k + e. path_bit (Path n) i = path_bit (Path m) i"
      unfolding L_def L'_def ke using sig_bytes_eq [of k "Path n" "Path m" e] pn pm ke by simp
    with P rhs show "PrefixLenBits n = PrefixLenBits m \<and>
      (\<forall>i. int i < PrefixLenBits n \<longrightarrow> path_bit (Path n) i = path_bit (Path m) i)" by simp
  next
    assume a: "PrefixLenBits n = PrefixLenBits m \<and>
      (\<forall>i. int i < PrefixLenBits n \<longrightarrow> path_bit (Path n) i = path_bit (Path m) i)"
    then have ke: "k' = k" "e' = e" by (simp_all add: k_def e_def k'_def e'_def)
    from a rhs have "\<forall>i<8 * k + e. path_bit (Path n) i = path_bit (Path m) i" by simp
    then have "L = L'"
      unfolding L_def L'_def ke using sig_bytes_eq [of k "Path n" "Path m" e] pn pm ke by simp
    with a show "AsKey n = AsKey m" unfolding kn km by simp
  qed
qed

subsection \<open>What the constructors return\<close>

lemma length_copy_bytes [simp]: "length (copy_bytes dst src) = length dst"
  by (simp add: copy_bytes_def)


lemma length_coords_loop [simp]: "length (coords_loop i uidx buf) = length buf"
proof (induction i uidx buf rule: coords_loop.induct)
  case (1 i uidx buf)
  show ?case
  proof (cases "uidx > 0 \<and> i \<ge> 0")
    case True
    with 1 show ?thesis by (subst coords_loop.simps) simp
  next
    case False
    then show ?thesis by (subst coords_loop.simps) auto
  qed
qed

lemma length_word_bytes_loop:
  "word_bytes_loop j d i buf = (brk, i', buf') \<Longrightarrow> length buf' = length buf"
proof (induction j arbitrary: d i buf)
  case 0
  then show ?case by simp
next
  case (Suc j)
  show ?case
  proof (cases "i - 1 < 0")
    case True
    with Suc.prems show ?thesis by (simp add: Let_def)
  next
    case False
    with Suc.prems have "word_bytes_loop j (drop_bit 8 d) (i - 1) (buf[nat (i - 1) := ucast d]) =
        (brk, i', buf')" by (simp add: Let_def)
    from Suc.IH [OF this] show ?thesis by simp
  qed
qed

lemma length_words_loop [simp]: "length (words_loop ds i buf) = length buf"
proof (induction ds arbitrary: i buf)
  case Nil
  then show ?case by simp
next
  case (Cons d ds)
  obtain brk i' buf' where w: "word_bytes_loop 8 d i buf = (brk, i', buf')"
    by (cases "word_bytes_loop 8 d i buf") auto
  have l: "length buf' = length buf" using length_word_bytes_loop [OF w] .
  show ?case
  proof (cases brk)
    case True
    with w l show ?thesis by simp
  next
    case False
    with w l Cons.IH [of i' buf'] show ?thesis by simp
  qed
qed


lemma sint_diff_nonneg:
  fixes a b :: "64 word"
  assumes "0 \<le> sint a" "0 \<le> sint b"
  shows "sint (a - b) = sint a - sint b"
proof -
  have a: "sint a < 2 ^ 63" using sint_lt [of a] by simp
  have b: "sint b < 2 ^ 63" using sint_lt [of b] by simp
  have "sint (a - b) = signed_take_bit 63 (sint a - sint b)"
    by (simp add: sint_word_ariths)
  also have "\<dots> = sint a - sint b"
    using assms a b by (intro signed_take_bit_int_eq_self) simp_all
  finally show ?thesis .
qed





lemma word_bytes_loop_numeral [simp]:
  "word_bytes_loop (numeral k) d i buf =
     (let i = i - 1 in
      if i < 0 then (True, i, buf)
      else word_bytes_loop (pred_numeral k) (drop_bit 8 d) i (buf[nat i := ucast d]))"
  by (simp add: numeral_eq_Suc)

subsection \<open>The loop of NewNodeIDForTreeCoords\<close>

lemma Len64_bound: "unat x < 2 ^ Len64 x"
proof (induction x rule: Len64.induct)
  case (1 x)
  show ?case
  proof (cases "x = 0")
    case True
    then show ?thesis by (simp add: Len64.simps)
  next
    case False
    from 1 [OF False] have "unat x div 2 < 2 ^ Len64 (drop_bit 1 x)"
      by (simp add: drop_bit_eq_div unat_div_distrib)
    then have "unat x < 2 * 2 ^ Len64 (drop_bit 1 x)" by linarith
    then show ?thesis using False by (subst Len64.simps) simp
  qed
qed

lemma ucast_low_byte: "(ucast (u AND 0xff :: 64 word) :: byte) = ucast u"
proof -
  have m: "(0xff :: 64 word) = mask 8" by (simp add: mask_eq_exp_minus_1)
  show ?thesis unfolding m by (rule bit_word_eqI) (auto simp: bit_simps)
qed

lemma coords_loop_nth:
  assumes "i < int (length buf)" "\<forall>q. int q \<le> i \<longrightarrow> buf ! q = 0" "q < length buf"
  shows "coords_loop i u buf ! q =
     (if int q \<le> i then ucast (drop_bit (8 * nat (i - int q)) u) else buf ! q)"
  using assms
proof (induction i u buf rule: coords_loop.induct)
  case (1 i u buf)
  show ?case
  proof (cases "u > 0 \<and> i \<ge> 0")
    case False
    then consider "u = 0" | "i < 0" by (auto simp: word_greater_zero_iff)
    then show ?thesis
    proof cases
      case 1
      then show ?thesis using "1.prems" by simp
    next
      case 2
      then show ?thesis by simp
    qed
  next
    case True
    define buf1 where "buf1 = buf[nat i := ucast (u AND 0xff)]"
    have step: "coords_loop i u buf = coords_loop (i - 1) (drop_bit 8 u) buf1"
      using True by (subst coords_loop.simps) (simp add: buf1_def)
    have p1: "i - 1 < int (length buf1)" using "1.prems"(1) by (simp add: buf1_def)
    have p2: "\<forall>q. int q \<le> i - 1 \<longrightarrow> buf1 ! q = 0"
      using "1.prems"(2) True by (auto simp: buf1_def nth_list_update)
    have p3: "q < length buf1" using "1.prems"(3) by (simp add: buf1_def)
    have IH: "coords_loop (i - 1) (drop_bit 8 u) buf1 ! q =
        (if int q \<le> i - 1 then ucast (drop_bit (8 * nat (i - 1 - int q)) (drop_bit 8 u))
         else buf1 ! q)"
      using "1.IH" [OF True, folded buf1_def, OF p1 p2 p3] .
    consider "int q \<le> i - 1" | "int q = i" | "i < int q" by linarith
    then show ?thesis
    proof cases
      case 1
      then have "8 * nat (i - 1 - int q) + 8 = 8 * nat (i - int q)" by linarith
      then have "drop_bit (8 * nat (i - 1 - int q)) (drop_bit 8 u) = drop_bit (8 * nat (i - int q)) u"
        by (simp add: drop_bit_drop_bit)
      with 1 show ?thesis unfolding step IH by simp
    next
      case 2
      then have "nat i = q" by simp
      then have "buf1 ! q = ucast u"
        using "1.prems"(3) by (simp add: buf1_def ucast_low_byte)
      with 2 show ?thesis unfolding step IH by simp
    next
      case 3
      then have "nat i \<noteq> q" using True by linarith
      then have "buf1 ! q = buf ! q" by (simp add: buf1_def)
      with 3 show ?thesis unfolding step IH by simp
    qed
  qed
qed

lemma sint_diff_in_range:
  fixes a b :: "64 word"
  assumes "- (2 ^ 63) \<le> sint a - sint b" "sint a - sint b < 2 ^ 63"
  shows "sint (a - b) = sint a - sint b"
proof -
  have "sint (a - b) = signed_take_bit 63 (sint a - sint b)"
    by (simp add: sint_word_ariths)
  also have "\<dots> = sint a - sint b"
    using assms by (intro signed_take_bit_int_eq_self) simp_all
  finally show ?thesis .
qed

lemma shl_no_overflow:
  fixes idx :: "64 word"
  assumes "d + Len64 idx \<le> 64"
  shows "unat (shl idx d) = unat idx * 2 ^ d"
proof (cases "d < 64")
  case True
  have "unat idx * 2 ^ d < 2 ^ Len64 idx * 2 ^ d"
    using Len64_bound [of idx] by simp
  also have "\<dots> = 2 ^ (Len64 idx + d)" by (simp add: power_add)
  also have "\<dots> \<le> (2 :: nat) ^ 64" using assms by (intro power_increasing) simp_all
  finally have lt: "unat idx * 2 ^ d < 2 ^ 64" .
  have "unat (push_bit d idx) = take_bit LENGTH(64) (push_bit d (unat idx))"
    by (rule unsigned_push_bit_eq)
  also have "\<dots> = (unat idx * 2 ^ d) mod 2 ^ 64"
    by (simp add: take_bit_eq_mod push_bit_eq_mult)
  also have "\<dots> = unat idx * 2 ^ d" using lt by simp
  finally show ?thesis using True by (simp add: shl_def)
next
  case False
  then have "Len64 idx = 0" using assms by simp
  then have "unat idx < 1" using Len64_bound [of idx] by simp
  then have "idx = 0" by (simp add: unat_eq_zero)
  then show ?thesis using False by (simp add: shl_def)
qed

lemma byte_of_shifted:
  fixes w :: "64 word"
  shows "(ucast (drop_bit k w) :: byte) = word_of_nat (unat w div 2 ^ k)"
proof -
  have "(ucast (drop_bit k w) :: byte) = word_of_nat (unat (drop_bit k w))" by simp
  also have "unat (drop_bit k w) = unat w div 2 ^ k"
    by (metis drop_bit_eq_div unat_drop_bit_eq)
  finally show ?thesis .
qed


section \<open>Tree coordinates: the documented examples\<close>

text \<open>
  C7. The examples of the package documentation: leaf 19 of a 16-level tree is
  Path [0x00, 0x13] with 16 significant bits; depth 2, index 16383 of the same tree is
  [0xff, 0xfc] with 14; leaf 95 of an 8-level tree is [0x5f] with 8, and its ancestor
  two levels up (index 23) is [0x5c] with 6.
\<close>

theorem tree_coords_examples:
  "NewNodeIDForTreeCoords 0 19 16 = Some (Inr \<lparr>Path = [0x00, 0x13], PrefixLenBits = 16\<rparr>) \<and>
   NewNodeIDForTreeCoords 2 16383 16 = Some (Inr \<lparr>Path = [0xFF, 0xFC], PrefixLenBits = 14\<rparr>) \<and>
   NewNodeIDForTreeCoords 0 95 8 = Some (Inr \<lparr>Path = [0x5F], PrefixLenBits = 8\<rparr>) \<and>
   NewNodeIDForTreeCoords 2 23 8 = Some (Inr \<lparr>Path = [0x5C], PrefixLenBits = 6\<rparr>)"
  by (simp add: NewNodeIDForTreeCoords_def make_bytes_def shl_def signed_divide_int_def
      signed_modulo_int_def)

section \<open>Equivalence\<close>

text \<open>
  C8. For identifiers n and m of the data model (0 \<le> PrefixLenBits \<le> 8 * len(Path)),
  Equivalent returns, without a panic, true exactly when the two have the same
  PrefixLenBits and the same bits at the positions below it. It is therefore reflexive
  and symmetric, and the bits from PrefixLenBits on (the padding) and the lengths of
  the two paths play no part in the answer.
\<close>

theorem Equivalent_iff_significant_bits:
  assumes "0 \<le> PrefixLenBits n" "PrefixLenBits n \<le> PathLenBits n"
    and "0 \<le> PrefixLenBits m" "PrefixLenBits m \<le> PathLenBits m"
  shows "Equivalent n m =
           Some (PrefixLenBits n = PrefixLenBits m \<and>
                 (\<forall>i. int i < PrefixLenBits n \<longrightarrow> path_bit (Path n) i = path_bit (Path m) i)) \<and>
         Equivalent n n = Some True \<and>
         Equivalent m n = Equivalent n m"
proof -
  have 1: "Equivalent n m =
           Some (PrefixLenBits n = PrefixLenBits m \<and>
                 (\<forall>i. int i < PrefixLenBits n \<longrightarrow> path_bit (Path n) i = path_bit (Path m) i))"
    using assms by (rule Equivalent_bits)
  have 2: "Equivalent n n = Some True"
    using assms(1,2) by (simp add: Equivalent_bits)
  have 3: "Equivalent m n =
           Some (PrefixLenBits m = PrefixLenBits n \<and>
                 (\<forall>i. int i < PrefixLenBits m \<longrightarrow> path_bit (Path m) i = path_bit (Path n) i))"
    using assms by (intro Equivalent_bits)
  have "Equivalent m n = Equivalent n m"
    unfolding 1 3 by auto
  with 1 2 show ?thesis by simp
qed

theorem Equivalent_iff_significant_bits_witness:
  "0 \<le> PrefixLenBits \<lparr>Path = [0xAB, 0xC0], PrefixLenBits = 9\<rparr> \<and>
   PrefixLenBits \<lparr>Path = [0xAB, 0xC0], PrefixLenBits = 9\<rparr>
     \<le> PathLenBits \<lparr>Path = [0xAB, 0xC0], PrefixLenBits = 9\<rparr> \<and>
   PrefixLenBits \<lparr>Path = [0xAB, 0x80, 0x11], PrefixLenBits = 9\<rparr>
     \<le> PathLenBits \<lparr>Path = [0xAB, 0x80, 0x11], PrefixLenBits = 9\<rparr> \<and>
   Equivalent \<lparr>Path = [0xAB, 0xC0], PrefixLenBits = 9\<rparr>
              \<lparr>Path = [0xAB, 0x80, 0x11], PrefixLenBits = 9\<rparr> = Some True \<and>
   Equivalent \<lparr>Path = [0xAB, 0x80, 0x11], PrefixLenBits = 9\<rparr>
              \<lparr>Path = [0xAB, 0xC0], PrefixLenBits = 9\<rparr> = Some True"
  using Equivalent_iff_significant_bits
    [of "\<lparr>Path = [0xAB, 0xC0], PrefixLenBits = 9\<rparr>" "\<lparr>Path = [0xAB, 0x80, 0x11], PrefixLenBits = 9\<rparr>"]
  by (simp add: PathLenBits_def Equivalent_def slice_to_def index_def leftmask_def)

section \<open>MaskLeft\<close>

text \<open>
  C3, as stated, fails: MaskLeft at the identifier's own PrefixLenBits is not a no-op
  when the padding holds a set bit. With one significant bit in the byte 0xff, the
  result has the byte 0x80.
\<close>

theorem MaskLeft_noop_counterexample:
  "0 \<le> PrefixLenBits \<lparr>Path = [0xFF], PrefixLenBits = 1\<rparr> \<and>
   PrefixLenBits \<lparr>Path = [0xFF], PrefixLenBits = 1\<rparr> \<le> PathLenBits \<lparr>Path = [0xFF], PrefixLenBits = 1\<rparr> \<and>
   MaskLeft \<lparr>Path = [0xFF], PrefixLenBits = 1\<rparr> (PrefixLenBits \<lparr>Path = [0xFF], PrefixLenBits = 1\<rparr>)
     = Some \<lparr>Path = [0x80], PrefixLenBits = 1\<rparr> \<and>
   \<lparr>Path = [0x80], PrefixLenBits = 1\<rparr> \<noteq> \<lparr>Path = [0xFF :: byte], PrefixLenBits = 1\<rparr>"
  by (simp add: MaskLeft_def PathLenBits_def make_bytes_def bytesForBits_eq slice_to_def
      index_def leftmask_def copy_bytes_def)

text \<open>
  C3, amended. For 0 \<le> d \<le> PathLenBits, MaskLeft at d returns and masking the result
  at d again returns the same result. For an identifier with
  0 \<le> PrefixLenBits \<le> PathLenBits, MaskLeft at PrefixLenBits returns an identifier of
  the same PrefixLenBits and path length that is Equivalent to the original and whose
  padding is zero; it is the original itself exactly when the padding of the original
  is zero.
\<close>

theorem MaskLeft_idempotent:
  "(0 \<le> d \<and> d \<le> PathLenBits n \<longrightarrow>
      (\<exists>r. MaskLeft n d = Some r \<and> MaskLeft r d = Some r)) \<and>
   (0 \<le> PrefixLenBits n \<and> PrefixLenBits n \<le> PathLenBits n \<longrightarrow>
      (\<exists>r. MaskLeft n (PrefixLenBits n) = Some r \<and>
           PrefixLenBits r = PrefixLenBits n \<and> length (Path r) = length (Path n) \<and>
           Equivalent r n = Some True \<and> padding_zero r \<and>
           ((r = n) = padding_zero n)))"
proof (intro conjI impI)
  assume d: "0 \<le> d \<and> d \<le> PathLenBits n"
  then have "d \<le> 8 * int (length (Path n))" by (simp add: PathLenBits_def)
  with d obtain r where r: "MaskLeft n d = Some r"
    using MaskLeft_bits [of d n] by blast
  with d have "MaskLeft r d = Some r" by (intro MaskLeft_idem [of d n]) simp_all
  with r show "\<exists>r. MaskLeft n d = Some r \<and> MaskLeft r d = Some r" by blast
next
  assume p: "0 \<le> PrefixLenBits n \<and> PrefixLenBits n \<le> PathLenBits n"
  then show "\<exists>r. MaskLeft n (PrefixLenBits n) = Some r \<and>
           PrefixLenBits r = PrefixLenBits n \<and> length (Path r) = length (Path n) \<and>
           Equivalent r n = Some True \<and> padding_zero r \<and>
           ((r = n) = padding_zero n)"
    using MaskLeft_own_length [of n] by metis
qed

theorem MaskLeft_idempotent_witness:
  "0 \<le> (9::int) \<and> 9 \<le> PathLenBits \<lparr>Path = [0xAB, 0xFF], PrefixLenBits = 9\<rparr> \<and>
   0 \<le> PrefixLenBits \<lparr>Path = [0xAB, 0xFF], PrefixLenBits = 9\<rparr> \<and>
   PrefixLenBits \<lparr>Path = [0xAB, 0xFF], PrefixLenBits = 9\<rparr>
     \<le> PathLenBits \<lparr>Path = [0xAB, 0xFF], PrefixLenBits = 9\<rparr> \<and>
   (\<exists>r. MaskLeft \<lparr>Path = [0xAB, 0xFF], PrefixLenBits = 9\<rparr> 9 = Some r \<and> MaskLeft r 9 = Some r \<and>
        Equivalent r \<lparr>Path = [0xAB, 0xFF], PrefixLenBits = 9\<rparr> = Some True \<and> padding_zero r)"
  using MaskLeft_idempotent [of 9 "\<lparr>Path = [0xAB, 0xFF], PrefixLenBits = 9\<rparr>"]
  by (auto simp: PathLenBits_def)

section \<open>Canonical paths\<close>

text \<open>
  C10, as stated, fails in its last part: two identifiers with the same PrefixLenBits
  and the same significant bits need not have paths of the same length, and MaskLeft
  keeps the length of the path it is given.
\<close>

theorem MaskLeft_same_prefix_counterexample:
  "PrefixLenBits \<lparr>Path = [0x80], PrefixLenBits = 1\<rparr> = PrefixLenBits \<lparr>Path = [0x80, 0x00], PrefixLenBits = 1\<rparr> \<and>
   path_bit (Path \<lparr>Path = [0x80], PrefixLenBits = 1\<rparr>) 0 =
     path_bit (Path \<lparr>Path = [0x80, 0x00], PrefixLenBits = 1\<rparr>) 0 \<and>
   MaskLeft \<lparr>Path = [0x80], PrefixLenBits = 1\<rparr> 1 = Some \<lparr>Path = [0x80], PrefixLenBits = 1\<rparr> \<and>
   MaskLeft \<lparr>Path = [0x80, 0x00], PrefixLenBits = 1\<rparr> 1 = Some \<lparr>Path = [0x80, 0x00], PrefixLenBits = 1\<rparr> \<and>
   [0x80] \<noteq> [0x80, 0x00 :: byte]"
  by (simp add: MaskLeft_def path_bit_def make_bytes_def bytesForBits_eq slice_to_def
      index_def leftmask_def copy_bytes_def)

text \<open>
  C10, amended. For 0 \<le> d \<le> PathLenBits, MaskLeft at d returns a path of the same
  length in which every bit at a position from d on is zero, and so is every byte
  after the first bytesForBits d bytes; the bits below d are those of the original.
  Two identifiers with paths of the same length and the same PrefixLenBits p
  (0 \<le> p \<le> PathLenBits) that agree on their first p bits have the same path after
  MaskLeft at p.
\<close>

theorem MaskLeft_canonical:
  "(0 \<le> d \<and> d \<le> PathLenBits n \<longrightarrow>
      (\<exists>r. MaskLeft n d = Some r \<and> length (Path r) = length (Path n) \<and>
           (\<forall>i. i < 8 * length (Path n) \<longrightarrow>
                path_bit (Path r) i = (int i < d \<and> path_bit (Path n) i)) \<and>
           (\<forall>q. nat (bytesForBits d) \<le> q \<and> q < length (Path n) \<longrightarrow> Path r ! q = 0))) \<and>
   (PrefixLenBits n = PrefixLenBits m \<and> length (Path n) = length (Path m) \<and>
    0 \<le> PrefixLenBits n \<and> PrefixLenBits n \<le> PathLenBits n \<and>
    (\<forall>i. int i < PrefixLenBits n \<longrightarrow> path_bit (Path n) i = path_bit (Path m) i) \<longrightarrow>
      (\<exists>r s. MaskLeft n (PrefixLenBits n) = Some r \<and> MaskLeft m (PrefixLenBits m) = Some s \<and>
             Path r = Path s))"
proof (intro conjI impI)
  assume d: "0 \<le> d \<and> d \<le> PathLenBits n"
  then have dn: "d \<le> 8 * int (length (Path n))" by (simp add: PathLenBits_def)
  with d obtain r where r: "MaskLeft n d = Some r" "length (Path r) = length (Path n)"
      "\<And>i. i < 8 * length (Path n) \<Longrightarrow> path_bit (Path r) i = (int i < d \<and> path_bit (Path n) i)"
    using MaskLeft_bits [of d n] by blast
  have "Path r ! q = 0" if q: "nat (bytesForBits d) \<le> q" "q < length (Path n)" for q
  proof (rule bit_word_eqI)
    fix j assume "j < LENGTH(8)"
    define k where "k = 7 - j"
    then have k: "k < 8" "7 - k = j" using \<open>j < LENGTH(8)\<close> by simp_all
    have "(d + 7) div 8 \<le> int q" using q(1) by (simp add: bytesForBits_eq)
    then have "d \<le> 8 * int q" by linarith
    then have "\<not> int (8 * q + k) < d" by simp
    moreover have "8 * q + k < 8 * length (Path n)" using q(2) k by simp
    ultimately have "\<not> path_bit (Path r) (8 * q + k)" using r(3) by blast
    then have "\<not> bit (Path r ! q) (7 - k)" using k(1) by (simp add: path_bit_split)
    then show "bit (Path r ! q) j = bit (0 :: byte) j" using k(2) by simp
  qed
  with r show "\<exists>r. MaskLeft n d = Some r \<and> length (Path r) = length (Path n) \<and>
           (\<forall>i. i < 8 * length (Path n) \<longrightarrow>
                path_bit (Path r) i = (int i < d \<and> path_bit (Path n) i)) \<and>
           (\<forall>q. nat (bytesForBits d) \<le> q \<and> q < length (Path n) \<longrightarrow> Path r ! q = 0)"
    by blast
next
  assume a: "PrefixLenBits n = PrefixLenBits m \<and> length (Path n) = length (Path m) \<and>
    0 \<le> PrefixLenBits n \<and> PrefixLenBits n \<le> PathLenBits n \<and>
    (\<forall>i. int i < PrefixLenBits n \<longrightarrow> path_bit (Path n) i = path_bit (Path m) i)"
  define p where "p = PrefixLenBits n"
  have p: "0 \<le> p" "p \<le> 8 * int (length (Path n))" "p \<le> 8 * int (length (Path m))"
    "PrefixLenBits m = p" "length (Path m) = length (Path n)"
    using a by (simp_all add: p_def PathLenBits_def)
  have agree: "int i < p \<Longrightarrow> path_bit (Path n) i = path_bit (Path m) i" for i
    using a by (simp add: p_def)
  obtain r where r: "MaskLeft n p = Some r" "length (Path r) = length (Path n)"
      "\<And>i. i < 8 * length (Path n) \<Longrightarrow> path_bit (Path r) i = (int i < p \<and> path_bit (Path n) i)"
    using MaskLeft_bits [OF p(1,2)] by blast
  obtain s where s: "MaskLeft m p = Some s" "length (Path s) = length (Path m)"
      "\<And>i. i < 8 * length (Path m) \<Longrightarrow> path_bit (Path s) i = (int i < p \<and> path_bit (Path m) i)"
    using MaskLeft_bits [OF p(1,3)] by blast
  have "Path r = Path s"
  proof (rule path_eqI)
    show "length (Path r) = length (Path s)" using r(2) s(2) p(5) by simp
  next
    fix i assume "i < 8 * length (Path r)"
    then have i: "i < 8 * length (Path n)" "i < 8 * length (Path m)" using r(2) p(5) by simp_all
    show "path_bit (Path r) i = path_bit (Path s) i"
      using r(3) [OF i(1)] s(3) [OF i(2)] agree [of i] by auto
  qed
  with r(1) s(1) show "\<exists>r s. MaskLeft n (PrefixLenBits n) = Some r \<and>
      MaskLeft m (PrefixLenBits m) = Some s \<and> Path r = Path s"
    using p(4) by (simp add: p_def)
qed

theorem MaskLeft_canonical_witness:
  "0 \<le> (9::int) \<and> 9 \<le> PathLenBits \<lparr>Path = [0xAB, 0xFF], PrefixLenBits = 9\<rparr> \<and>
   PrefixLenBits \<lparr>Path = [0xAB, 0xFF], PrefixLenBits = 9\<rparr> =
     PrefixLenBits \<lparr>Path = [0xAB, 0x80], PrefixLenBits = 9\<rparr> \<and>
   length (Path \<lparr>Path = [0xAB, 0xFF], PrefixLenBits = 9\<rparr>) =
     length (Path \<lparr>Path = [0xAB, 0x80], PrefixLenBits = 9\<rparr>) \<and>
   (\<exists>r. MaskLeft \<lparr>Path = [0xAB, 0xFF], PrefixLenBits = 9\<rparr> 9 = Some r \<and>
        \<not> path_bit (Path r) 9 \<and> path_bit (Path r) 8) \<and>
   (\<exists>r s. MaskLeft \<lparr>Path = [0xAB, 0xFF], PrefixLenBits = 9\<rparr> 9 = Some r \<and>
          MaskLeft \<lparr>Path = [0xAB, 0x80], PrefixLenBits = 9\<rparr> 9 = Some s \<and> Path r = Path s)"
proof -
  have agree: "\<forall>i. int i < 9 \<longrightarrow> path_bit [0xAB, 0xFF] i = path_bit [0xAB, 0x80] i"
  proof (intro allI impI)
    fix i :: nat assume "int i < 9"
    then have "i \<in> {0, 1, 2, 3, 4, 5, 6, 7, 8}" by auto
    then show "path_bit [0xAB, 0xFF] i = path_bit [0xAB, 0x80] i"
      by (auto simp: path_bit_def)
  qed
  have b8: "path_bit [0xAB, 0xFF] 8" by (simp add: path_bit_def)
  show ?thesis
    using MaskLeft_canonical [of 9 "\<lparr>Path = [0xAB, 0xFF], PrefixLenBits = 9\<rparr>"
        "\<lparr>Path = [0xAB, 0x80], PrefixLenBits = 9\<rparr>"] agree b8
    by (auto simp: PathLenBits_def)
qed

section \<open>Neighbor\<close>

text \<open>
  C4. For 1 \<le> d \<le> min(PrefixLenBits, PathLenBits), Neighbor at d returns MaskLeft at
  d with exactly the bit at position d - 1 flipped (the last significant bit of the
  masked identifier, whose PrefixLenBits is d), and Neighbor at d of that result
  returns MaskLeft at d of the original: the sibling of the sibling is the masked
  node itself.
\<close>

theorem Neighbor_involution:
  assumes "1 \<le> d" "d \<le> PrefixLenBits n" "d \<le> PathLenBits n"
  shows "\<exists>m nb. MaskLeft n d = Some m \<and> Neighbor n d = Some nb \<and> Neighbor nb d = Some m \<and>
           PrefixLenBits m = d \<and> PrefixLenBits nb = d \<and>
           length (Path nb) = length (Path m) \<and>
           (\<forall>i. i < 8 * length (Path m) \<longrightarrow>
                path_bit (Path nb) i = (path_bit (Path m) i \<noteq> (int i = d - 1)))"
proof -
  have d0: "0 \<le> d" and dn: "d \<le> 8 * int (length (Path n))"
    using assms by (simp_all add: PathLenBits_def)
  obtain m where m: "MaskLeft n d = Some m" "length (Path m) = length (Path n)"
      "PrefixLenBits m = min d (PrefixLenBits n)"
      "\<And>i. i < 8 * length (Path n) \<Longrightarrow> path_bit (Path m) i = (int i < d \<and> path_bit (Path n) i)"
    using MaskLeft_bits [OF d0 dn] by blast
  obtain nb where nb: "Neighbor n d = Some nb" "PrefixLenBits nb = d"
      "length (Path nb) = length (Path n)"
      "\<And>i. i < 8 * length (Path n) \<Longrightarrow>
         path_bit (Path nb) i = ((int i < d \<and> path_bit (Path n) i) \<noteq> (int i = d - 1))"
    using Neighbor_bits [OF assms] by blast
  have "d \<le> PrefixLenBits nb" "d \<le> PathLenBits nb"
    using nb(2,3) assms(3) by (simp_all add: PathLenBits_def)
  from Neighbor_bits [OF assms(1) this]
  obtain nb2 where nb2: "Neighbor nb d = Some nb2" "PrefixLenBits nb2 = d"
      "length (Path nb2) = length (Path nb)"
      "\<And>i. i < 8 * length (Path nb) \<Longrightarrow>
         path_bit (Path nb2) i = ((int i < d \<and> path_bit (Path nb) i) \<noteq> (int i = d - 1))"
    by blast
  have "Path nb2 = Path m"
  proof (rule path_eqI)
    show "length (Path nb2) = length (Path m)" using nb2(3) nb(3) m(2) by simp
  next
    fix i assume "i < 8 * length (Path nb2)"
    then have i: "i < 8 * length (Path n)" "i < 8 * length (Path nb)"
      using nb2(3) nb(3) by simp_all
    show "path_bit (Path nb2) i = path_bit (Path m) i"
      unfolding nb2(4) [OF i(2)] nb(4) [OF i(1)] m(4) [OF i(1)] by auto
  qed
  moreover have pm: "PrefixLenBits m = d" using m(3) assms(2) by simp
  ultimately have "nb2 = m" using nb2(2) by simp
  with nb2(1) have again: "Neighbor nb d = Some m" by simp
  have flip: "\<forall>i. i < 8 * length (Path m) \<longrightarrow>
      path_bit (Path nb) i = (path_bit (Path m) i \<noteq> (int i = d - 1))"
    using nb(4) m(4) m(2) by simp
  show ?thesis
    using m(1) nb(1) again pm nb(2) nb(3) m(2) flip by simp
qed

theorem Neighbor_involution_witness:
  "(1::int) \<le> 9 \<and> 9 \<le> PrefixLenBits \<lparr>Path = [0xFF, 0xFF, 0xFF], PrefixLenBits = 20\<rparr> \<and>
   9 \<le> PathLenBits \<lparr>Path = [0xFF, 0xFF, 0xFF], PrefixLenBits = 20\<rparr> \<and>
   MaskLeft \<lparr>Path = [0xFF, 0xFF, 0xFF], PrefixLenBits = 20\<rparr> 9
     = Some \<lparr>Path = [0xFF, 0x80, 0x00], PrefixLenBits = 9\<rparr> \<and>
   Neighbor \<lparr>Path = [0xFF, 0xFF, 0xFF], PrefixLenBits = 20\<rparr> 9
     = Some \<lparr>Path = [0xFF, 0x00, 0x00], PrefixLenBits = 9\<rparr> \<and>
   Neighbor \<lparr>Path = [0xFF, 0x00, 0x00], PrefixLenBits = 9\<rparr> 9
     = Some \<lparr>Path = [0xFF, 0x80, 0x00], PrefixLenBits = 9\<rparr>"
proof -
  have ml: "MaskLeft \<lparr>Path = [0xFF, 0xFF, 0xFF], PrefixLenBits = 20\<rparr> 9
     = Some \<lparr>Path = [0xFF, 0x80, 0x00], PrefixLenBits = 9\<rparr>"
    by (simp add: MaskLeft_def make_bytes_def bytesForBits_eq slice_to_def
      index_def leftmask_def copy_bytes_def)
  have ml2: "MaskLeft \<lparr>Path = [0xFF, 0x80, 0x00], PrefixLenBits = 9\<rparr> 9
     = Some \<lparr>Path = [0xFF, 0x80, 0x00], PrefixLenBits = 9\<rparr>"
    by (simp add: MaskLeft_def make_bytes_def bytesForBits_eq slice_to_def
      index_def leftmask_def copy_bytes_def)
  have nb: "Neighbor \<lparr>Path = [0xFF, 0xFF, 0xFF], PrefixLenBits = 20\<rparr> 9
     = Some \<lparr>Path = [0xFF, 0x00, 0x00], PrefixLenBits = 9\<rparr>"
    by (simp add: Neighbor_def ml PathLenBits_def index_def shl_def uint_of_def)
  show ?thesis
    using Neighbor_involution [of 9 "\<lparr>Path = [0xFF, 0xFF, 0xFF], PrefixLenBits = 20\<rparr>"] ml nb
    by (simp add: PathLenBits_def)
qed

section \<open>Siblings\<close>

text \<open>
  C5, as stated, fails in its last part: the first sibling can differ from the
  identifier in more than its final significant bit, because the padding of a
  sibling is zero whatever the padding of the identifier holds. With one
  significant bit in the byte 0xff the only sibling has the byte 0x00, which
  differs from 0xff also at position 7, a padding bit.
\<close>

theorem Siblings_first_counterexample:
  "PrefixLenBits \<lparr>Path = [0xFF], PrefixLenBits = 1\<rparr> \<le> PathLenBits \<lparr>Path = [0xFF], PrefixLenBits = 1\<rparr> \<and>
   Siblings \<lparr>Path = [0xFF], PrefixLenBits = 1\<rparr> = Some [\<lparr>Path = [0x00], PrefixLenBits = 1\<rparr>] \<and>
   path_bit [0x00] 7 \<noteq> path_bit [0xFF] 7 \<and>
   int 7 \<noteq> PrefixLenBits \<lparr>Path = [0xFF], PrefixLenBits = 1\<rparr> - 1"
  by (simp add: Siblings_def Neighbor_def MaskLeft_def PathLenBits_def make_bytes_def
      bytesForBits_eq slice_to_def index_def leftmask_def copy_bytes_def shl_def uint_of_def
      path_bit_def)

text \<open>
  C5, amended. For an identifier with 0 \<le> PrefixLenBits \<le> 8 * len(Path), Siblings
  returns a sequence of length PrefixLenBits whose element at index h is
  Neighbor (PrefixLenBits - h), for every h below PrefixLenBits. When PrefixLenBits is
  positive, the first element has the PrefixLenBits and the path length of the
  identifier, agrees with it on every significant bit but the last, differs from it
  at the last significant bit, and has zero padding.
\<close>

theorem Siblings_are_neighbors:
  assumes "0 \<le> PrefixLenBits n" "PrefixLenBits n \<le> PathLenBits n"
  shows "\<exists>sibs. Siblings n = Some sibs \<and> length sibs = nat (PrefixLenBits n) \<and>
           (\<forall>h. h < nat (PrefixLenBits n) \<longrightarrow>
                Neighbor n (PrefixLenBits n - int h) = Some (sibs ! h)) \<and>
           (0 < PrefixLenBits n \<longrightarrow>
              PrefixLenBits (sibs ! 0) = PrefixLenBits n \<and>
              length (Path (sibs ! 0)) = length (Path n) \<and>
              (\<forall>i. i < 8 * length (Path n) \<longrightarrow>
                 path_bit (Path (sibs ! 0)) i =
                   ((int i < PrefixLenBits n \<and> path_bit (Path n) i) \<noteq>
                    (int i = PrefixLenBits n - 1))))"
proof -
  obtain sibs where s: "Siblings n = Some sibs" "length sibs = nat (PrefixLenBits n)"
    "\<And>h. h < nat (PrefixLenBits n) \<Longrightarrow> Neighbor n (PrefixLenBits n - int h) = Some (sibs ! h)"
    using Siblings_result [OF assms] by blast
  have first: "PrefixLenBits (sibs ! 0) = PrefixLenBits n \<and>
              length (Path (sibs ! 0)) = length (Path n) \<and>
              (\<forall>i. i < 8 * length (Path n) \<longrightarrow>
                 path_bit (Path (sibs ! 0)) i =
                   ((int i < PrefixLenBits n \<and> path_bit (Path n) i) \<noteq>
                    (int i = PrefixLenBits n - 1)))"
    if pos: "0 < PrefixLenBits n"
  proof -
    have "Neighbor n (PrefixLenBits n) = Some (sibs ! 0)" using s(3) [of 0] pos by simp
    moreover obtain nb where "Neighbor n (PrefixLenBits n) = Some nb"
      "PrefixLenBits nb = PrefixLenBits n" "length (Path nb) = length (Path n)"
      "\<And>i. i < 8 * length (Path n) \<Longrightarrow>
            path_bit (Path nb) i =
              ((int i < PrefixLenBits n \<and> path_bit (Path n) i) \<noteq> (int i = PrefixLenBits n - 1))"
      using Neighbor_bits [of "PrefixLenBits n" n] pos assms(2) by auto
    ultimately show ?thesis by simp
  qed
  show ?thesis using s first by blast
qed

theorem Siblings_are_neighbors_witness:
  "0 \<le> PrefixLenBits \<lparr>Path = [0xFF], PrefixLenBits = 3\<rparr> \<and>
   PrefixLenBits \<lparr>Path = [0xFF], PrefixLenBits = 3\<rparr> \<le> PathLenBits \<lparr>Path = [0xFF], PrefixLenBits = 3\<rparr> \<and>
   (\<exists>sibs. Siblings \<lparr>Path = [0xFF], PrefixLenBits = 3\<rparr> = Some sibs \<and> length sibs = 3 \<and>
      Neighbor \<lparr>Path = [0xFF], PrefixLenBits = 3\<rparr> 3 = Some (sibs ! 0) \<and>
      Neighbor \<lparr>Path = [0xFF], PrefixLenBits = 3\<rparr> 1 = Some (sibs ! 2) \<and>
      PrefixLenBits (sibs ! 0) = 3 \<and> \<not> path_bit (Path (sibs ! 0)) 2)"
proof -
  have b: "path_bit [0xFF] 2" by (simp add: path_bit_def)
  obtain sibs where s: "Siblings \<lparr>Path = [0xFF], PrefixLenBits = 3\<rparr> = Some sibs" "length sibs = 3"
    "\<forall>h. h < 3 \<longrightarrow> Neighbor \<lparr>Path = [0xFF], PrefixLenBits = 3\<rparr> (3 - int h) = Some (sibs ! h)"
    "PrefixLenBits (sibs ! 0) = 3"
    "\<forall>i. i < 8 \<longrightarrow> path_bit (Path (sibs ! 0)) i = ((int i < 3 \<and> path_bit [0xFF] i) \<noteq> (int i = 2))"
    using Siblings_are_neighbors [of "\<lparr>Path = [0xFF], PrefixLenBits = 3\<rparr>"]
    by (auto simp: PathLenBits_def)
  have "Neighbor \<lparr>Path = [0xFF], PrefixLenBits = 3\<rparr> 3 = Some (sibs ! 0)" using s(3) [rule_format, of 0] by simp
  moreover have "Neighbor \<lparr>Path = [0xFF], PrefixLenBits = 3\<rparr> 1 = Some (sibs ! 2)" using s(3) [rule_format, of 2] by simp
  moreover have "\<not> path_bit (Path (sibs ! 0)) 2" using s(5) [rule_format, of 2] b by simp
  ultimately show ?thesis using s(1,2,4) by (simp add: PathLenBits_def)
qed

section \<open>Split and NewNodeIDFromPrefixSuffix\<close>

text \<open>
  C1, as stated, fails. Suffix masks the last byte it copies and copies nothing
  beyond it, so the padding of the identifier is lost: Path [0xab, 0xff] with 9
  significant bits, split after one byte, comes back as [0xab, 0x80]. And where
  PrefixLenBits is exactly 8 * prefixBytes (and not 0) Suffix panics, so Split
  returns nothing to rebuild from.
\<close>

theorem Split_roundtrip_counterexample:
  "8 * 1 \<le> PrefixLenBits \<lparr>Path = [0xAB, 0xFF], PrefixLenBits = 9\<rparr> \<and>
   Split \<lparr>Path = [0xAB, 0xFF], PrefixLenBits = 9\<rparr> 1 8 = Some ([0xAB], \<lparr>bits = 1, path = [0x80]\<rparr>) \<and>
   NewNodeIDFromPrefixSuffix [0xAB] \<lparr>bits = 1, path = [0x80]\<rparr>
       (PathLenBits \<lparr>Path = [0xAB, 0xFF], PrefixLenBits = 9\<rparr>)
     = Some \<lparr>Path = [0xAB, 0x80], PrefixLenBits = 9\<rparr> \<and>
   [0xAB, 0x80] \<noteq> Path \<lparr>Path = [0xAB, 0xFF], PrefixLenBits = 9\<rparr> \<and>
   8 * 1 \<le> PrefixLenBits \<lparr>Path = [0xAB, 0xFF], PrefixLenBits = 8\<rparr> \<and>
   Split \<lparr>Path = [0xAB, 0xFF], PrefixLenBits = 8\<rparr> 1 8 = None"
  by (simp add: Split_def Prefix_def Suffix_def NewSuffix_def NewNodeIDFromPrefixSuffix_def
      PathLenBits_def make_bytes_def bytesForBits_eq slice_to_def slice_range_def slice_from_def
      copy_at_def index_def copy_bytes_def shl_def uint_of_def)

text \<open>
  C1, amended. For an identifier with PrefixLenBits \<le> 8 * len(Path), a prefix length
  prefixBytes \<ge> 0 and a number b = PrefixLenBits - 8 * prefixBytes of suffix bits with
  0 < b \<le> suffixBits and b < 256 (the suffix stores b in a byte), Split returns a
  prefix and a suffix from which NewNodeIDFromPrefixSuffix, with maxPathBits =
  PathLenBits, rebuilds an identifier with the PrefixLenBits, the path length and
  every significant bit of the original, and with zero padding: it is Equivalent to
  the original, and equal to it byte for byte exactly when the padding of the
  original is zero.
\<close>

theorem Split_then_join:
  assumes "0 \<le> prefixBytes"
    and "0 < PrefixLenBits n - prefixBytes * 8"
    and "PrefixLenBits n - prefixBytes * 8 \<le> suffixBits"
    and "PrefixLenBits n - prefixBytes * 8 < 256"
    and "PrefixLenBits n \<le> PathLenBits n"
  shows "\<exists>pre s r. Split n prefixBytes suffixBits = Some (pre, s) \<and>
           NewNodeIDFromPrefixSuffix pre s (PathLenBits n) = Some r \<and>
           PrefixLenBits r = PrefixLenBits n \<and> length (Path r) = length (Path n) \<and>
           (\<forall>i. i < 8 * length (Path n) \<longrightarrow>
                path_bit (Path r) i = (int i < PrefixLenBits n \<and> path_bit (Path n) i)) \<and>
           Equivalent r n = Some True \<and>
           ((r = n) = padding_zero n)"
proof -
  obtain pre s where ps: "Split n prefixBytes suffixBits = Some (pre, s)"
    "NewNodeIDFromPrefixSuffix pre s (PathLenBits n) = MaskLeft n (PrefixLenBits n)"
    using Split_Join_MaskLeft [OF assms] by blast
  have "0 \<le> PrefixLenBits n" using assms(1,2) by simp
  from MaskLeft_own_length [OF this assms(5)]
  obtain r where r: "MaskLeft n (PrefixLenBits n) = Some r"
    "PrefixLenBits r = PrefixLenBits n" "length (Path r) = length (Path n)"
    "\<And>i. i < 8 * length (Path n) \<Longrightarrow>
       path_bit (Path r) i = (int i < PrefixLenBits n \<and> path_bit (Path n) i)"
    "Equivalent r n = Some True" "(r = n) = padding_zero n"
    by blast
  show ?thesis
    using ps r by (intro exI [of _ pre] exI [of _ s] exI [of _ r]) simp
qed

theorem Split_then_join_witness:
  "(0::int) \<le> 1 \<and>
   0 < PrefixLenBits \<lparr>Path = [0xAB, 0xFF], PrefixLenBits = 9\<rparr> - 1 * 8 \<and>
   PrefixLenBits \<lparr>Path = [0xAB, 0xFF], PrefixLenBits = 9\<rparr> - 1 * 8 \<le> 8 \<and>
   PrefixLenBits \<lparr>Path = [0xAB, 0xFF], PrefixLenBits = 9\<rparr> - 1 * 8 < 256 \<and>
   PrefixLenBits \<lparr>Path = [0xAB, 0xFF], PrefixLenBits = 9\<rparr>
     \<le> PathLenBits \<lparr>Path = [0xAB, 0xFF], PrefixLenBits = 9\<rparr> \<and>
   (\<exists>pre s r. Split \<lparr>Path = [0xAB, 0xFF], PrefixLenBits = 9\<rparr> 1 8 = Some (pre, s) \<and>
      NewNodeIDFromPrefixSuffix pre s (PathLenBits \<lparr>Path = [0xAB, 0xFF], PrefixLenBits = 9\<rparr>) = Some r \<and>
      PrefixLenBits r = 9 \<and> length (Path r) = 2 \<and>
      Equivalent r \<lparr>Path = [0xAB, 0xFF], PrefixLenBits = 9\<rparr> = Some True)"
proof -
  have h: "(0::int) \<le> 1"
    "0 < PrefixLenBits \<lparr>Path = [0xAB, 0xFF], PrefixLenBits = 9\<rparr> - 1 * 8"
    "PrefixLenBits \<lparr>Path = [0xAB, 0xFF], PrefixLenBits = 9\<rparr> - 1 * 8 \<le> 8"
    "PrefixLenBits \<lparr>Path = [0xAB, 0xFF], PrefixLenBits = 9\<rparr> - 1 * 8 < 256"
    "PrefixLenBits \<lparr>Path = [0xAB, 0xFF], PrefixLenBits = 9\<rparr>
       \<le> PathLenBits \<lparr>Path = [0xAB, 0xFF], PrefixLenBits = 9\<rparr>"
    by (simp_all add: PathLenBits_def)
  from Split_then_join [OF h]
  obtain pre s r where "Split \<lparr>Path = [0xAB, 0xFF], PrefixLenBits = 9\<rparr> 1 8 = Some (pre, s)"
    "NewNodeIDFromPrefixSuffix pre s (PathLenBits \<lparr>Path = [0xAB, 0xFF], PrefixLenBits = 9\<rparr>) = Some r"
    "PrefixLenBits r = 9" "length (Path r) = 2"
    "Equivalent r \<lparr>Path = [0xAB, 0xFF], PrefixLenBits = 9\<rparr> = Some True"
    by auto
  then show ?thesis using h by blast
qed

section \<open>AsKey\<close>

text \<open>
  C9. For identifiers of the data model (0 \<le> PrefixLenBits \<le> 8 * len(Path)) AsKey
  returns a key, and two keys are equal exactly when the identifiers have the same
  PrefixLenBits and the same bits below it. The key is the decimal PrefixLenBits, a
  colon, two hex characters for each full significant byte and, when PrefixLenBits is
  not a multiple of 8, two hex characters for the next byte under the left mask of the
  remaining bits. For PrefixLenBits 9 and Path [0xab, 0xc0] the key is 9:ab80.
\<close>

theorem AsKey_unique:
  assumes "0 \<le> PrefixLenBits n" "PrefixLenBits n \<le> PathLenBits n"
    and "0 \<le> PrefixLenBits m" "PrefixLenBits m \<le> PathLenBits m"
  shows "(\<exists>kn km. AsKey n = Some kn \<and> AsKey m = Some km \<and>
            (kn = km) = (PrefixLenBits n = PrefixLenBits m \<and>
               (\<forall>i. int i < PrefixLenBits n \<longrightarrow> path_bit (Path n) i = path_bit (Path m) i))) \<and>
         AsKey n = Some (Itoa (PrefixLenBits n) @ '':'' @
            hex_Encode (take (nat (PrefixLenBits n div 8)) (Path n)) @
            (if PrefixLenBits n mod 8 = 0 then []
             else hex_Encode [Path n ! nat (PrefixLenBits n div 8) AND
                              leftmask ! nat (PrefixLenBits n mod 8)])) \<and>
         AsKey \<lparr>Path = [0xAB, 0xC0], PrefixLenBits = 9\<rparr> = Some ''9:ab80''"
proof -
  have kn: "AsKey n = Some (Itoa (PrefixLenBits n) @ '':'' @
            hex_Encode (take (nat (PrefixLenBits n div 8)) (Path n)) @
            (if PrefixLenBits n mod 8 = 0 then []
             else hex_Encode [Path n ! nat (PrefixLenBits n div 8) AND
                              leftmask ! nat (PrefixLenBits n mod 8)]))"
  proof -
    have "0 \<le> PrefixLenBits n mod 8" by simp
    then have "(0 < nat (PrefixLenBits n mod 8)) = (PrefixLenBits n mod 8 \<noteq> 0)" by linarith
    then show ?thesis
      using AsKey_closed(1) [OF assms(1,2)] by (simp add: hex_Encode_append)
  qed
  obtain km where km: "AsKey m = Some km" using AsKey_closed(1) [OF assms(3,4)] by blast
  have ex: "AsKey \<lparr>Path = [0xAB, 0xC0], PrefixLenBits = 9\<rparr> = Some ''9:ab80''"
    by (simp add: AsKey_def Itoa_def digits_9 slice_to_def index_def leftmask_def
        hex_Encode_def hexChars_def)
  from AsKey_eq_iff [OF assms] kn km ex show ?thesis by simp
qed

theorem AsKey_unique_witness:
  "0 \<le> PrefixLenBits \<lparr>Path = [0xAB, 0xC0], PrefixLenBits = 9\<rparr> \<and>
   PrefixLenBits \<lparr>Path = [0xAB, 0xC0], PrefixLenBits = 9\<rparr>
     \<le> PathLenBits \<lparr>Path = [0xAB, 0xC0], PrefixLenBits = 9\<rparr> \<and>
   0 \<le> PrefixLenBits \<lparr>Path = [0xAB, 0xFF], PrefixLenBits = 9\<rparr> \<and>
   PrefixLenBits \<lparr>Path = [0xAB, 0xFF], PrefixLenBits = 9\<rparr>
     \<le> PathLenBits \<lparr>Path = [0xAB, 0xFF], PrefixLenBits = 9\<rparr> \<and>
   AsKey \<lparr>Path = [0xAB, 0xC0], PrefixLenBits = 9\<rparr> = Some ''9:ab80'' \<and>
   AsKey \<lparr>Path = [0xAB, 0xFF], PrefixLenBits = 9\<rparr> = Some ''9:ab80''"
proof -
  have k: "AsKey \<lparr>Path = [0xAB, 0xFF], PrefixLenBits = 9\<rparr> = Some ''9:ab80''"
    by (simp add: AsKey_def Itoa_def digits_9 slice_to_def index_def leftmask_def
        hex_Encode_def hexChars_def)
  have h: "0 \<le> PrefixLenBits \<lparr>Path = [0xAB, 0xC0], PrefixLenBits = 9\<rparr>"
    "PrefixLenBits \<lparr>Path = [0xAB, 0xC0], PrefixLenBits = 9\<rparr>
       \<le> PathLenBits \<lparr>Path = [0xAB, 0xC0], PrefixLenBits = 9\<rparr>"
    "0 \<le> PrefixLenBits \<lparr>Path = [0xAB, 0xFF], PrefixLenBits = 9\<rparr>"
    "PrefixLenBits \<lparr>Path = [0xAB, 0xFF], PrefixLenBits = 9\<rparr>
       \<le> PathLenBits \<lparr>Path = [0xAB, 0xFF], PrefixLenBits = 9\<rparr>"
    by (simp_all add: PathLenBits_def)
  have "AsKey \<lparr>Path = [0xAB, 0xC0], PrefixLenBits = 9\<rparr> = Some ''9:ab80''"
    using AsKey_unique [OF h] by blast
  with h k show ?thesis by blast
qed

section \<open>The constructors and the invariant\<close>




section \<open>Tree coordinates beyond 64 bits\<close>

text \<open>
  C6 does not hold of the code for trees deeper than 64 levels. The index is shifted
  left by depth in a uint64, after a range check against maxPathBits that lets depth
  and the bit length of the index add up to more than 64: the bits shifted out are
  lost. With depth 64, index 1 and maxPathBits 72 the check passes (1 \<le> 72 - 64)
  and the Path is nine zero bytes, the identifier of index 0 at that depth, where the
  claim and the package documentation ask for the index padded by depth zero bits,
  [0x01, 0, 0, 0, 0, 0, 0, 0, 0]. At depth 8, index 2^62 and maxPathBits 128 the Path
  is zero too. The subtraction maxPathBits - depth is a 64-bit one as well: for
  maxPathBits = -2^63 and depth 1 it wraps to a large positive number, the check
  passes and make panics on the negative length, where C6 has an error returned.
\<close>

theorem TreeCoords_shift_overflow:
  "NewNodeIDForTreeCoords 64 1 72 =
     Some (Inr \<lparr>Path = [0, 0, 0, 0, 0, 0, 0, 0, 0], PrefixLenBits = 8\<rparr>) \<and>
   NewNodeIDForTreeCoords 64 0 72 =
     Some (Inr \<lparr>Path = [0, 0, 0, 0, 0, 0, 0, 0, 0], PrefixLenBits = 8\<rparr>) \<and>
   NewNodeIDForTreeCoords 8 (2 ^ 62) 128 =
     Some (Inr \<lparr>Path = [0, 0, 0, 0, 0, 0, 0, 0, 0, 0, 0, 0, 0, 0, 0, 0], PrefixLenBits = 120\<rparr>) \<and>
   NewNodeIDForTreeCoords 1 0 (- (2 ^ 63)) = None"
  by (simp add: NewNodeIDForTreeCoords_def make_bytes_def shl_def signed_divide_int_def
      signed_modulo_int_def Len64.simps)

text \<open>
  Where the 64-bit arithmetic does not overflow the function does what C6 says. The
  error is returned exactly on the four stated conditions, as long as
  maxPathBits - depth is itself a 64-bit value:
\<close>

lemma TreeCoords_error_iff:
  assumes "sint depth < 0 \<or> - (2 ^ 63) \<le> sint maxPathBits - sint depth"
  shows "(NewNodeIDForTreeCoords depth idx maxPathBits = Some (Inl OutOfRange)) =
     (sint depth < 0 \<or> sint idx < 0 \<or> sint maxPathBits smod 8 \<noteq> 0 \<or>
      sint maxPathBits - sint depth < int (Len64 idx))"
proof (cases "sint depth < 0")
  case True
  then show ?thesis by (simp add: NewNodeIDForTreeCoords_def Let_def)
next
  case False
  have "sint maxPathBits < 2 ^ 63" using sint_lt [of maxPathBits] by simp
  then have "sint maxPathBits - sint depth < 2 ^ 63" using False by linarith
  with assms False have d: "sint (maxPathBits - depth) = sint maxPathBits - sint depth"
    by (intro sint_diff_in_range) simp_all
  show ?thesis
    unfolding NewNodeIDForTreeCoords_def Let_def d
    by (auto split: option.splits)
qed

text \<open>
  and for a depth and an index whose bits fit in 64 together, which is every accepted
  input when maxPathBits \<le> 64, the Path has maxPathBits / 8 bytes and its byte j,
  counted from the right, is byte j of index * 2^depth:
\<close>

lemma TreeCoords_in_range:
  assumes "0 \<le> sint depth" "0 \<le> sint idx" "0 \<le> sint maxPathBits"
    and "sint maxPathBits mod 8 = 0"
    and "int (Len64 idx) \<le> sint maxPathBits - sint depth"
    and "unat depth + Len64 idx \<le> 64"
  shows "\<exists>r. NewNodeIDForTreeCoords depth idx maxPathBits = Some (Inr r) \<and>
           length (Path r) = nat (sint maxPathBits div 8) \<and>
           PrefixLenBits r = sint maxPathBits - sint depth \<and>
           (\<forall>j<length (Path r).
              Path r ! (length (Path r) - 1 - j) =
                word_of_nat (unat idx * 2 ^ unat depth div 2 ^ (8 * j)))"
proof -
  define L where "L = nat (sint maxPathBits div 8)"
  define r where "r = \<lparr>Path = coords_loop (int L - 1) (shl idx (unat depth)) (replicate L 0),
      PrefixLenBits = sint (maxPathBits - depth)\<rparr>"
  have d: "sint (maxPathBits - depth) = sint maxPathBits - sint depth"
    using assms(1,3) by (intro sint_diff_nonneg) simp_all
  have mk: "make_bytes (sint maxPathBits sdiv 8) = Some (replicate L 0)"
    using assms(3) by (simp add: make_bytes_def L_def pos_imp_zdiv_nonneg_iff)
  have res: "NewNodeIDForTreeCoords depth idx maxPathBits = Some (Inr r)"
    unfolding NewNodeIDForTreeCoords_def Let_def d mk r_def
    using assms by simp
  have len: "length (Path r) = L" by (simp add: r_def)
  have bytes: "Path r ! (L - 1 - j) = word_of_nat (unat idx * 2 ^ unat depth div 2 ^ (8 * j))"
    if j: "j < L" for j
  proof -
    have q: "L - 1 - j < length (replicate L (0 :: byte))" using j by simp
    have le: "int (L - 1 - j) \<le> int L - 1" using j by linarith
    have k: "nat (int L - 1 - int (L - 1 - j)) = j" using j by linarith
    have "Path r ! (L - 1 - j) = ucast (drop_bit (8 * j) (shl idx (unat depth)))"
      unfolding r_def using coords_loop_nth [of "int L - 1" "replicate L 0" "L - 1 - j"
          "shl idx (unat depth)"] q le k
      by simp
    also have "\<dots> = word_of_nat (unat (shl idx (unat depth)) div 2 ^ (8 * j))"
      by (rule byte_of_shifted)
    also have "unat (shl idx (unat depth)) = unat idx * 2 ^ unat depth"
      using assms(6) by (rule shl_no_overflow)
    finally show ?thesis .
  qed
  show ?thesis
    using res len bytes d by (intro exI [of _ r]) (simp add: L_def r_def)
qed

end
